theory Spec2Isabelle
  imports Main "HOL-Library.Word"
begin

section \<open>Data model\<close>

text \<open>
  Jobs live at addresses of an explicit store; a \<open>Job*\<close> is an address or
  \<open>nullptr\<close> (\<open>None\<close>). The 32-bit integers of the source
  (\<open>std::atomic<int>\<close>, \<open>int32_t\<close>, \<open>uint32_t\<close>) are 32-bit words;
  \<open>sint\<close> reads one as signed, \<open>unat\<close> as unsigned.
\<close>

type_synonym addr = nat
type_synonym int32 = "32 word"
type_synonym uint32 = "32 word"

text \<open>
  The body of a coroutine is user code. It is modelled by the sequence of suspension
  points it runs through: \<open>co_await\<close> on a child coroutine, \<open>co_await\<close> on a
  thread index, and the final \<open>co_return\<close>.
\<close>

datatype 'v body =
    Co_return 'v
  | Co_await_coro addr "'v body"
  | Co_await_thread int32 "'v body"

text \<open>
  State of a coroutine frame as seen through its \<open>coroutine_handle\<close>: suspended
  with the rest of the body still to run, suspended at the final suspension point
  (\<open>done()\<close> is true), or destroyed.
\<close>

datatype 'v frame = Suspended "'v body" | Done | Destroyed

text \<open>
  Class \<open>Job\<close> (\<open>m_next\<close>, \<open>m_children\<close>, \<open>m_parent\<close>, \<open>m_continuation\<close>)
  extended by the members that \<open>Coro_promise_base\<close> and \<open>Coro_promise<T>\<close> add or
  use: \<open>m_coro_parent\<close>, \<open>m_thread_index\<close>, \<open>m_value\<close> and the frame the promise
  belongs to.
\<close>

record 'v job =
  m_next :: "addr option"
  m_children :: int32
  m_parent :: "addr option"
  m_continuation :: "addr option"
  m_coro_parent :: "addr option"
  m_thread_index :: int32
  m_value :: 'v
  m_coro :: "'v frame"

type_synonym 'v heap = "addr \<Rightarrow> 'v job"

section \<open>JobQueue\<close>

text \<open>
  A \<open>JobQueue\<close> is its \<open>m_head\<close> pointer; the list is threaded through the
  \<open>m_next\<close> fields of the jobs in the store. The model is sequential: a
  compare-and-swap finds the value it expects and succeeds.
\<close>

definition push :: "'v heap \<Rightarrow> addr option \<Rightarrow> addr \<Rightarrow> 'v heap \<times> addr option" where
  "push h m_head pJob = (h(pJob := (h pJob)\<lparr>m_next := m_head\<rparr>), Some pJob)"

text \<open>
  The walk of the FIFO variant: \<open>Inr (h', job)\<close> when the loop returns the last job
  after detaching it, \<open>Inl head\<close> when the loop is left with nothing detached.
  A list that closes into a cycle makes the walk run forever (\<open>None\<close>).
\<close>

partial_function (option) pop_walk :: "'v heap \<Rightarrow> addr \<Rightarrow> (addr + 'v heap \<times> addr) option" where
  "pop_walk h head =
     (case m_next (h head) of
        None \<Rightarrow> Some (Inl head)
      | Some nxt \<Rightarrow>
          (case m_next (h nxt) of
             None \<Rightarrow> Some (Inr (h(head := (h head)\<lparr>m_next := None\<rparr>), nxt))
           | Some _ \<Rightarrow> pop_walk h nxt))"

declare pop_walk.simps [code]

text \<open>
  The closing compare-and-swap loop of \<open>pop\<close>: when \<open>head\<close> is not the current
  \<open>m_head\<close> the exchange fails, reloads \<open>head\<close> from \<open>m_head\<close> and the next round
  succeeds.
\<close>

definition pop_cas :: "'v heap \<Rightarrow> addr option \<Rightarrow> addr \<Rightarrow> addr option \<times> addr option" where
  "pop_cas h m_head head =
     (if m_head = Some head then (m_next (h head), Some head)
      else (case m_head of
              None \<Rightarrow> (None, None)
            | Some head' \<Rightarrow> (m_next (h head'), Some head')))"

text \<open>\<open>pop FIFO h m_head\<close> returns the new store, the new \<open>m_head\<close> and the job (or null).\<close>

definition pop :: "bool \<Rightarrow> 'v heap \<Rightarrow> addr option \<Rightarrow> ('v heap \<times> addr option \<times> addr option) option" where
  "pop FIFO h m_head =
     (case m_head of
        None \<Rightarrow> Some (h, m_head, None)
      | Some head \<Rightarrow>
          if FIFO then
            (case pop_walk h head of
               None \<Rightarrow> None
             | Some (Inr (h', j)) \<Rightarrow> Some (h', m_head, Some j)
             | Some (Inl head') \<Rightarrow>
                 (case pop_cas h m_head head' of (m_head', j) \<Rightarrow> Some (h, m_head', j)))
          else (case pop_cas h m_head head of (m_head', j) \<Rightarrow> Some (h, m_head', j)))"

section \<open>JobSystem\<close>

text \<open>
  The members of \<open>JobSystem\<close> that scheduling reads or writes. The two
  \<open>thread_local\<close> members hold the values of the thread that is executing;
  \<open>m_thread_index_tl\<close> is \<open>JobSystem::m_thread_index\<close> (the job's own field has
  that name in the record above). A queue is represented by its head pointer.
\<close>

record 'v jobsystem =
  jobs :: "'v heap"
  m_thread_count :: uint32
  m_thread_index_tl :: uint32
  m_current_job :: "addr option"
  m_local_queues :: "addr option list"
  m_central_queue :: "addr option"

text \<open>Write access to one job of the store.\<close>

definition upd :: "'v jobsystem \<Rightarrow> addr \<Rightarrow> ('v job \<Rightarrow> 'v job) \<Rightarrow> 'v jobsystem" where
  "upd s a f = s\<lparr>jobs := (jobs s)(a := f (jobs s a))\<rparr>"

text \<open>\<open>m_children.fetch_sub(1)\<close>: the value before the decrement, and the new state.\<close>

definition fetch_sub :: "'v jobsystem \<Rightarrow> addr \<Rightarrow> int32 \<times> 'v jobsystem" where
  "fetch_sub s a = (m_children (jobs s a), upd s a (\<lambda>j. j\<lparr>m_children := m_children j - 1\<rparr>))"

text \<open>
  \<open>JobSystem::schedule(job, thd)\<close>. The comparison is the source's, on signed 32-bit
  values, with \<open>m_thread_count\<close> cast to \<open>int\<close>. Indexing \<open>m_local_queues\<close> past its
  end is undefined behaviour, modelled as \<open>None\<close>.
\<close>

definition schedule :: "'v jobsystem \<Rightarrow> addr \<Rightarrow> int32 \<Rightarrow> 'v jobsystem option" where
  "schedule s job thd =
     (if 0 \<le> sint thd \<and> sint thd < sint (m_thread_count s) then
        (let i = unat (m_thread_index_tl s) in
         if i < length (m_local_queues s) then
           (case push (jobs s) (m_local_queues s ! i) job of
              (h, mh) \<Rightarrow> Some (s\<lparr>jobs := h, m_local_queues := (m_local_queues s)[i := mh]\<rparr>))
         else None)
      else
        (case push (jobs s) (m_central_queue s) job of
           (h, mh) \<Rightarrow> Some (s\<lparr>jobs := h, m_central_queue := mh\<rparr>)))"

section \<open>Completion protocol\<close>

text \<open>
  The first half of \<open>Job::on_finished\<close>: hand the continuation to the parent (when
  there is one) and schedule it with the default thread argument \<open>-1\<close>.
\<close>

definition on_finished_continuation :: "'v jobsystem \<Rightarrow> addr \<Rightarrow> 'v jobsystem option" where
  "on_finished_continuation s this =
     (case m_continuation (jobs s this) of
        None \<Rightarrow> Some s
      | Some c \<Rightarrow>
          (let s1 =
             (case m_parent (jobs s this) of
                None \<Rightarrow> s
              | Some p \<Rightarrow>
                  (let s' = upd s p (\<lambda>j. j\<lparr>m_children := m_children j + 1\<rparr>)
                   in upd s' c (\<lambda>j. j\<lparr>m_parent := m_parent (jobs s' this)\<rparr>)))
           in schedule s1 c (- 1)))"

text \<open>
  \<open>Job::on_finished\<close>, with the body of \<open>Job::child_finished\<close> written out at the call
  \<open>m_parent->child_finished()\<close>: the two functions call each other up the chain of
  parents. \<open>None\<close> is a call that does not return.
\<close>

partial_function (option) on_finished :: "'v jobsystem \<Rightarrow> addr \<Rightarrow> 'v jobsystem option" where
  "on_finished s this =
     (case on_finished_continuation s this of
        None \<Rightarrow> None
      | Some s1 \<Rightarrow>
          (case m_parent (jobs s1 this) of
             None \<Rightarrow> Some s1
           | Some p \<Rightarrow>
               (if fst (fetch_sub s1 p) = 1 then on_finished (snd (fetch_sub s1 p)) p
                else Some (snd (fetch_sub s1 p)))))"

declare on_finished.simps [code]

definition child_finished :: "'v jobsystem \<Rightarrow> addr \<Rightarrow> 'v jobsystem option" where
  "child_finished s this =
     (if fst (fetch_sub s this) = 1 then on_finished (snd (fetch_sub s this)) this
      else Some (snd (fetch_sub s this)))"

section \<open>Coroutines\<close>

text \<open>\<open>vgjs::schedule(T& coro)\<close> for a coroutine future whose promise is at \<open>coro\<close>.\<close>

definition schedule_coro :: "'v jobsystem \<Rightarrow> addr \<Rightarrow> 'v jobsystem option" where
  "schedule_coro s coro =
     (let parent = m_current_job s;
          s1 = (case parent of
                  None \<Rightarrow> s
                | Some p \<Rightarrow> upd s p (\<lambda>j. j\<lparr>m_children := m_children j + 1\<rparr>));
          s2 = upd s1 coro (\<lambda>j. j\<lparr>m_coro_parent := parent\<rparr>)
      in schedule s2 coro (- 1))"

text \<open>
  A promise as its constructors leave it: the member initialisers of \<open>Job\<close>,
  \<open>m_continuation = this\<close> from \<open>Coro_promise_base\<close>, the value-initialised
  \<open>m_value\<close> (\<open>T0\<close> stands for \<open>T{}\<close>), and the frame suspended at
  \<open>initial_suspend\<close> with the whole body to run.
\<close>

text \<open>
  Modelled from the spec: the declaration of \<open>m_thread_index\<close>, which the awaiters
  and \<open>Coro::operator()\<close> write, is missing from the header; the spec describes the
  field as the optional worker index in which \<open>-1\<close> means any worker, and that is
  taken as its initial value.
\<close>

definition Coro_promise :: "'v \<Rightarrow> addr \<Rightarrow> 'v body \<Rightarrow> 'v job" where
  "Coro_promise T0 this b =
     \<lparr>m_next = None, m_children = 1, m_parent = None, m_continuation = Some this,
      m_coro_parent = None, m_thread_index = - 1, m_value = T0, m_coro = Suspended b\<rparr>"

definition return_value :: "'v jobsystem \<Rightarrow> addr \<Rightarrow> 'v \<Rightarrow> 'v jobsystem" where
  "return_value s this t = upd s this (\<lambda>j. j\<lparr>m_value := t\<rparr>)"

text \<open>\<open>Coro_promise::get\<close>, which \<open>Coro::get\<close> forwards to.\<close>

definition get :: "'v jobsystem \<Rightarrow> addr \<Rightarrow> 'v" where
  "get s this = m_value (jobs s this)"

definition awaiter_base_await_ready :: bool where
  "awaiter_base_await_ready = False"

text \<open>\<open>awaitable_coro<T>::awaiter\<close> for a single \<open>Coro<T>\<close> (not a vector).\<close>

definition awaitable_coro_await_ready :: bool where
  "awaitable_coro_await_ready = False"

definition awaitable_coro_await_suspend :: "'v jobsystem \<Rightarrow> addr \<Rightarrow> 'v jobsystem option" where
  "awaitable_coro_await_suspend s m_child = schedule_coro s m_child"

text \<open>
  Modelled from the spec: \<open>JobSystem::thread_index()\<close>, which the awaiter below
  calls, is missing from the header; the spec describes it as the accessor of the
  thread-local worker index.
\<close>

definition thread_index :: "'v jobsystem \<Rightarrow> uint32" where
  "thread_index s = m_thread_index_tl s"

text \<open>\<open>awaitable_resume_on::awaiter\<close>.\<close>

definition awaitable_resume_on_await_ready :: "'v jobsystem \<Rightarrow> int32 \<Rightarrow> bool" where
  "awaitable_resume_on_await_ready s k = (k = thread_index s)"

definition awaitable_resume_on_await_suspend :: "'v jobsystem \<Rightarrow> addr \<Rightarrow> int32 \<Rightarrow> 'v jobsystem" where
  "awaitable_resume_on_await_suspend s m_promise k =
     upd s m_promise (\<lambda>j. j\<lparr>m_thread_index := k\<rparr>)"


text \<open>\<open>final_awaiter::await_suspend\<close> on the promise \<open>h.promise()\<close>.\<close>

definition final_awaiter_await_suspend :: "'v jobsystem \<Rightarrow> addr \<Rightarrow> 'v jobsystem" where
  "final_awaiter_await_suspend s promise =
     upd (upd s promise (\<lambda>j. j\<lparr>m_parent := m_coro_parent j\<rparr>))
         promise (\<lambda>j. j\<lparr>m_continuation := None\<rparr>)"

text \<open>
  \<open>coroutine_handle::resume\<close>: the body runs from its suspension point to the next
  one. An awaiter that is ready does not suspend; otherwise the frame is suspended
  and \<open>await_suspend\<close> runs. After \<open>co_return\<close> the frame awaits the final awaiter;
  were that one ready, the frame would be destroyed.
\<close>

fun coro_run :: "'v jobsystem \<Rightarrow> addr \<Rightarrow> 'v body \<Rightarrow> 'v jobsystem option" where
  "coro_run s this (Co_return t) =
     (let s1 = return_value s this t in
      if awaiter_base_await_ready
      then Some (upd s1 this (\<lambda>j. j\<lparr>m_coro := Destroyed\<rparr>))
      else Some (final_awaiter_await_suspend (upd s1 this (\<lambda>j. j\<lparr>m_coro := Done\<rparr>)) this))"
| "coro_run s this (Co_await_coro child rest) =
     (if awaitable_coro_await_ready then coro_run s this rest
      else awaitable_coro_await_suspend
             (upd s this (\<lambda>j. j\<lparr>m_coro := Suspended rest\<rparr>)) child)"
| "coro_run s this (Co_await_thread k rest) =
     (if awaitable_resume_on_await_ready s k then coro_run s this rest
      else Some (awaitable_resume_on_await_suspend
                   (upd s this (\<lambda>j. j\<lparr>m_coro := Suspended rest\<rparr>)) this k))"

text \<open>
  \<open>Coro_promise::resume\<close>. Asking a destroyed frame whether it is done is undefined
  behaviour (\<open>None\<close>).
\<close>

definition resume :: "'v jobsystem \<Rightarrow> addr \<Rightarrow> 'v jobsystem option" where
  "resume s this =
     (case m_coro (jobs s this) of
        Suspended b \<Rightarrow> coro_run (upd s this (\<lambda>j. j\<lparr>m_children := 1\<rparr>)) this b
      | Done \<Rightarrow> Some s
      | Destroyed \<Rightarrow> None)"

text \<open>\<open>Job::operator()\<close>.\<close>

definition Job_call :: "'v jobsystem \<Rightarrow> addr \<Rightarrow> 'v jobsystem option" where
  "Job_call s this =
     (case resume (upd s this (\<lambda>j. j\<lparr>m_children := 1\<rparr>)) this of
        None \<Rightarrow> None
      | Some s1 \<Rightarrow>
          (if fst (fetch_sub s1 this) = 1 then on_finished (snd (fetch_sub s1 this)) this
           else Some (snd (fetch_sub s1 this))))"

text \<open>
  One round of the loop in \<open>JobSystem::thread_task\<close>. First \<open>m_current_job\<close> is
  taken from the own local queue, else from the central queue.
\<close>

definition thread_task_fetch :: "'v jobsystem \<Rightarrow> 'v jobsystem option" where
  "thread_task_fetch s =
     (let i = unat (m_thread_index_tl s) in
      if i < length (m_local_queues s) then
        (case pop True (jobs s) (m_local_queues s ! i) of
           None \<Rightarrow> None
         | Some (h, mh, j) \<Rightarrow>
             (let s1 = s\<lparr>jobs := h, m_local_queues := (m_local_queues s)[i := mh],
                         m_current_job := j\<rparr>
              in if m_current_job s1 = None
                 then (case pop False (jobs s1) (m_central_queue s1) of
                         None \<Rightarrow> None
                       | Some (h', mh', j') \<Rightarrow>
                           Some (s1\<lparr>jobs := h', m_central_queue := mh', m_current_job := j'\<rparr>))
                 else Some s1))
      else None)"

text \<open>Then the job, if any, is executed.\<close>

definition thread_task_round :: "'v jobsystem \<Rightarrow> 'v jobsystem option" where
  "thread_task_round s =
     (case thread_task_fetch s of
        None \<Rightarrow> None
      | Some s2 \<Rightarrow>
          (case m_current_job s2 of
             None \<Rightarrow> Some s2
           | Some job \<Rightarrow> Job_call s2 job))"

section \<open>Construction, executions and abstractions used in the statements\<close>

text \<open>
  The state the constructor \<open>JobSystem(threadCount, start_idx)\<close> builds over a store
  of jobs: \<open>threadCount = 0\<close> is replaced by \<open>hardware_concurrency()\<close>, one local
  queue is made per thread, and the thread-local members have their initial values.
\<close>

definition JobSystem :: "uint32 \<Rightarrow> uint32 \<Rightarrow> 'v heap \<Rightarrow> 'v jobsystem" where
  "JobSystem threadCount hardware_concurrency h =
     (let n = (if threadCount = 0 then hardware_concurrency else threadCount) in
      \<lparr>jobs = h, m_thread_count = n, m_thread_index_tl = 0, m_current_job = None,
       m_local_queues = replicate (unat n) None, m_central_queue = None\<rparr>)"

text \<open>
  The jobs a queue holds, from \<open>m_head\<close> along \<open>m_next\<close> to the null pointer:
  the newest job first.
\<close>

fun queue_list :: "'v heap \<Rightarrow> addr option \<Rightarrow> addr list \<Rightarrow> bool" where
  "queue_list h p [] = (p = None)"
| "queue_list h p (x # xs) = (p = Some x \<and> queue_list h (m_next (h x)) xs)"

text \<open>Pushing a list of jobs in order, and popping \<open>n\<close> times from a FIFO queue.\<close>

fun push_all :: "'v heap \<Rightarrow> addr option \<Rightarrow> addr list \<Rightarrow> 'v heap \<times> addr option" where
  "push_all h m_head [] = (h, m_head)"
| "push_all h m_head (j # js) =
     (case push h m_head j of (h', m_head') \<Rightarrow> push_all h' m_head' js)"

fun pop_n :: "nat \<Rightarrow> 'v heap \<Rightarrow> addr option \<Rightarrow> ('v heap \<times> addr option \<times> addr option list) option" where
  "pop_n 0 h m_head = Some (h, m_head, [])"
| "pop_n (Suc n) h m_head =
     (case pop True h m_head of
        None \<Rightarrow> None
      | Some (h', m_head', j) \<Rightarrow>
          (case pop_n n h' m_head' of
             None \<Rightarrow> None
           | Some (h'', m_head'', js) \<Rightarrow> Some (h'', m_head'', j # js)))"

text \<open>
  An execution is a sequence of events: a worker runs one round of its loop, the
  executing thread submits a coroutine, or another thread (with its own thread-local
  values) becomes the executing one.
\<close>

datatype event = Round | Submit addr | Switch uint32 "addr option"

fun exec :: "event \<Rightarrow> 'v jobsystem \<Rightarrow> 'v jobsystem option" where
  "exec Round s = thread_task_round s"
| "exec (Submit coro) s = schedule_coro s coro"
| "exec (Switch t j) s = Some (s\<lparr>m_thread_index_tl := t, m_current_job := j\<rparr>)"

fun run :: "event list \<Rightarrow> 'v jobsystem \<Rightarrow> 'v jobsystem option" where
  "run [] s = Some s"
| "run (e # es) s = (case exec e s of None \<Rightarrow> None | Some s' \<Rightarrow> run es s')"

text \<open>The value a body hands to \<open>co_return\<close>.\<close>

fun result_of :: "'v body \<Rightarrow> 'v" where
  "result_of (Co_return t) = t"
| "result_of (Co_await_coro child rest) = result_of rest"
| "result_of (Co_await_thread k rest) = result_of rest"

text \<open>
  What holds of a promise at address \<open>p\<close> whose body returns \<open>r\<close>, from its
  construction on: before the final suspension it is its own continuation, has no
  parent and an untouched result slot; from the final suspension on it has no
  continuation and the slot holds \<open>r\<close>.
\<close>

definition promise_ok :: "'v \<Rightarrow> 'v \<Rightarrow> addr \<Rightarrow> 'v job \<Rightarrow> bool" where
  "promise_ok T0 r p j =
     (case m_coro j of
        Suspended b \<Rightarrow>
          m_continuation j = Some p \<and> m_parent j = None \<and> m_value j = T0 \<and> result_of b = r
      | Done \<Rightarrow> m_continuation j = None \<and> m_value j = r
      | Destroyed \<Rightarrow> False)"

definition promise_inv :: "'v \<Rightarrow> (addr \<Rightarrow> 'v) \<Rightarrow> 'v heap \<Rightarrow> bool" where
  "promise_inv T0 res h = (\<forall>p. promise_ok T0 (res p) p (h p))"

definition pcore :: "'v job \<Rightarrow> addr option \<times> addr option \<times> 'v \<times> 'v frame" where
  "pcore j = (m_continuation j, m_parent j, m_value j, m_coro j)"

subsection \<open>The discipline under which the counters stay in range\<close>

text \<open>
  The coroutine a body awaits in the round that resumes it on thread \<open>t\<close>, if any:
  awaiting the own thread index does not suspend, awaiting another one ends the round.
\<close>

fun awaited :: "uint32 \<Rightarrow> 'v body \<Rightarrow> addr option" where
  "awaited t (Co_return v) = None"
| "awaited t (Co_await_coro c rest) = Some c"
| "awaited t (Co_await_thread k rest) = (if k = t then awaited t rest else None)"

text \<open>
  A coroutine that was never scheduled: its frame still holds the whole body and it
  is not in the central queue.
\<close>

definition unscheduled :: "(addr \<Rightarrow> 'v body) \<Rightarrow> 'v jobsystem \<Rightarrow> addr \<Rightarrow> bool" where
  "unscheduled bodies s c =
     (m_coro (jobs s c) = Suspended (bodies c) \<and>
      (\<exists>qs. queue_list (jobs s) (m_central_queue s) qs \<and> c \<notin> set qs))"

text \<open>
  An event is admissible when it schedules only a coroutine that was never scheduled
  before: a submission comes from a thread without a current job, and a round
  resumes a job that awaits, if anything, such a coroutine. The job a round resumes
  is the head of the central queue: \<open>schedule(coro)\<close> and \<open>on_finished\<close> never
  use a local queue.
\<close>

definition admissible :: "(addr \<Rightarrow> 'v body) \<Rightarrow> 'v jobsystem \<Rightarrow> event \<Rightarrow> bool" where
  "admissible bodies s e =
     (case e of
        Round \<Rightarrow>
          (case m_central_queue s of
             None \<Rightarrow> True
           | Some j \<Rightarrow>
               (case m_coro (jobs s j) of
                  Suspended b \<Rightarrow>
                    (case awaited (thread_index s) b of
                       None \<Rightarrow> True
                     | Some c \<Rightarrow> unscheduled bodies s c)
                | _ \<Rightarrow> True))
      | Submit c \<Rightarrow> m_current_job s = None \<and> unscheduled bodies s c
      | Switch t j \<Rightarrow> True)"

fun admissible_run :: "(addr \<Rightarrow> 'v body) \<Rightarrow> event list \<Rightarrow> 'v jobsystem \<Rightarrow> bool" where
  "admissible_run bodies [] s = True"
| "admissible_run bodies (e # es) s =
     (admissible bodies s e \<and>
      (case exec e s of None \<Rightarrow> False | Some s' \<Rightarrow> admissible_run bodies es s'))"

text \<open>
  The state of the counters between two events, for the central queue holding the
  jobs \<open>qs\<close>: a finished job is not queued and has counter 0; a queued job has
  counter 0 or 1; a job that is neither has counter 1. A frame is the whole body or
  a smaller rest of it.
\<close>

definition counts_ok :: "(addr \<Rightarrow> 'v body) \<Rightarrow> 'v heap \<Rightarrow> addr list \<Rightarrow> bool" where
  "counts_ok bodies h qs =
     (\<forall>J. m_coro (h J) \<noteq> Destroyed \<and>
          (m_coro (h J) = Done \<longrightarrow> J \<notin> set qs \<and> m_children (h J) = 0) \<and>
          (\<forall>b. m_coro (h J) = Suspended b \<longrightarrow>
             (b = bodies J \<or> size b < size (bodies J)) \<and>
             (J \<in> set qs \<longrightarrow> m_children (h J) = 0 \<or> m_children (h J) = 1) \<and>
             (J \<notin> set qs \<longrightarrow> m_children (h J) = 1)))"

text \<open>A job that has run and suspended, and is not queued.\<close>

definition waiting :: "(addr \<Rightarrow> 'v body) \<Rightarrow> 'v heap \<Rightarrow> addr list \<Rightarrow> addr \<Rightarrow> bool" where
  "waiting bodies h qs J =
     (J \<notin> set qs \<and> (\<exists>b. m_coro (h J) = Suspended b \<and> size b < size (bodies J)))"

text \<open>
  The coroutine parent of an unfinished coroutine is waiting, and it is the parent
  of no other unfinished coroutine.
\<close>

definition parents_ok :: "(addr \<Rightarrow> 'v body) \<Rightarrow> 'v heap \<Rightarrow> addr list \<Rightarrow> bool" where
  "parents_ok bodies h qs =
     (\<forall>c J. m_coro (h c) \<noteq> Done \<longrightarrow> m_coro_parent (h c) = Some J \<longrightarrow>
        waiting bodies h qs J \<and>
        (\<forall>c'. m_coro (h c') \<noteq> Done \<longrightarrow> m_coro_parent (h c') = Some J \<longrightarrow> c' = c))"

definition protocol_inv :: "'v \<Rightarrow> (addr \<Rightarrow> 'v body) \<Rightarrow> 'v jobsystem \<Rightarrow> bool" where
  "protocol_inv T0 bodies s =
     (promise_inv T0 (\<lambda>a. result_of (bodies a)) (jobs s) \<and>
      (\<forall>q \<in> set (m_local_queues s). q = None) \<and>
      (\<exists>qs. queue_list (jobs s) (m_central_queue s) qs \<and>
            counts_ok bodies (jobs s) qs \<and> parents_ok bodies (jobs s) qs))"

subsection \<open>Concrete systems\<close>

text \<open>Two workers over promises of \<open>Coro<int>\<close> that return at once.\<close>

definition idle_heap :: "int heap" where
  "idle_heap = (\<lambda>a. Coro_promise 0 a (Co_return 0))"

definition two_workers :: "int jobsystem" where
  "two_workers = JobSystem 2 8 idle_heap"

text \<open>
  One worker; the coroutines at 0 and 2 both await the coroutine at 1, which returns
  at once.
\<close>

definition shared_child :: "addr \<Rightarrow> int body" where
  "shared_child a =
     (if a = 0 \<or> a = 2 then Co_await_coro 1 (Co_return 10) else Co_return 20)"

definition shared_child_system :: "int jobsystem" where
  "shared_child_system = JobSystem 1 8 (\<lambda>a. Coro_promise 0 a (shared_child a))"

text \<open>
  One worker; the coroutine at 0 awaits the coroutine at 1 twice, the second time
  after it has finished.
\<close>

definition same_parent :: "addr \<Rightarrow> int body" where
  "same_parent a =
     (if a = 0 then Co_await_coro 1 (Co_await_coro 1 (Co_return 10)) else Co_return 20)"

definition same_parent_system :: "int jobsystem" where
  "same_parent_system = JobSystem 1 8 (\<lambda>a. Coro_promise 0 a (same_parent a))"

text \<open>Two workers; every coroutine awaits thread index 1 and then returns 7.\<close>

definition hop_body :: "addr \<Rightarrow> int body" where
  "hop_body a = Co_await_thread 1 (Co_return 7)"

definition hop_system :: "int jobsystem" where
  "hop_system = JobSystem 2 8 (\<lambda>a. Coro_promise 0 a (hop_body a))"

text \<open>The job at 0 has the job at 1 as parent and the job at 2 as continuation.\<close>

definition continuation_system :: "int jobsystem" where
  "continuation_system =
     upd two_workers 0 (\<lambda>j. j\<lparr>m_parent := Some 1, m_continuation := Some 2\<rparr>)"

text \<open>The store after the jobs at 4, 5 and 6 were pushed, in this order, onto an empty queue.\<close>

definition fifo_heap :: "int heap" where
  "fifo_heap = fst (push_all idle_heap None [4, 5, 6])"

section \<open>Basic facts about the store\<close>

lemma jobs_upd [simp]: "jobs (upd s a f) b = (if b = a then f (jobs s a) else jobs s b)"
  by (simp add: upd_def)

lemma upd_fields [simp]:
  "m_thread_count (upd s a f) = m_thread_count s"
  "m_thread_index_tl (upd s a f) = m_thread_index_tl s"
  "m_current_job (upd s a f) = m_current_job s"
  "m_local_queues (upd s a f) = m_local_queues s"
  "m_central_queue (upd s a f) = m_central_queue s"
  by (simp_all add: upd_def)

section \<open>The queue\<close>

lemma queue_list_upd_other:
  "a \<notin> set xs \<Longrightarrow> queue_list (h(a := j)) p xs = queue_list h p xs"
  by (induction xs arbitrary: p) auto

lemma queue_list_push:
  "queue_list h m_head xs \<Longrightarrow> pJob \<notin> set xs \<Longrightarrow>
   queue_list (fst (push h m_head pJob)) (snd (push h m_head pJob)) (pJob # xs)"
  by (auto simp: push_def queue_list_upd_other)

lemma queue_list_unique: "queue_list h p xs \<Longrightarrow> queue_list h p ys \<Longrightarrow> xs = ys"
proof (induction xs arbitrary: p ys)
  case Nil
  then show ?case by (cases ys) auto
next
  case (Cons x xs)
  then show ?case by (cases ys) auto
qed

lemma queue_list_suffix: "queue_list h p (as @ x # bs) \<Longrightarrow> queue_list h (Some x) (x # bs)"
  by (induction as arbitrary: p) auto

text \<open>A list that ends in the null pointer holds no job twice.\<close>

lemma queue_list_distinct: "queue_list h p xs \<Longrightarrow> distinct xs"
proof (induction xs arbitrary: p)
  case Nil
  then show ?case by simp
next
  case (Cons x xs)
  have rest: "queue_list h (m_next (h x)) xs" using Cons.prems by simp
  have "x \<notin> set xs"
  proof
    assume "x \<in> set xs"
    then obtain as bs where xs: "xs = as @ x # bs" by (auto dest: split_list)
    with rest have "queue_list h (Some x) (x # bs)" by (auto dest: queue_list_suffix)
    moreover have "queue_list h (Some x) (x # xs)" using Cons.prems by simp
    ultimately have "x # bs = x # xs" by (rule queue_list_unique)
    with xs show False by simp
  qed
  with Cons.IH[OF rest] show ?case by simp
qed

text \<open>On a list of two or more jobs the walk ends at the tail and cuts it off.\<close>

lemma pop_walk_last:
  "queue_list h (Some x) (x # y # ys) \<Longrightarrow>
   pop_walk h x =
     Some (Inr (h(last (x # butlast (y # ys)) :=
                   (h (last (x # butlast (y # ys))))\<lparr>m_next := None\<rparr>), last (y # ys)))"
proof (induction ys arbitrary: x y)
  case Nil
  then show ?case by (subst pop_walk.simps) auto
next
  case (Cons z zs)
  from Cons.prems have "pop_walk h x = pop_walk h y"
    by (subst pop_walk.simps) auto
  moreover from Cons.prems have "queue_list h (Some y) (y # z # zs)" by auto
  ultimately show ?case using Cons.IH[of y z] by simp
qed

lemma queue_list_detach:
  assumes "queue_list h p (xs @ [a, b])"
  shows "queue_list (h(a := (h a)\<lparr>m_next := None\<rparr>)) p (xs @ [a])"
proof -
  from assms have "distinct (xs @ [a, b])" by (rule queue_list_distinct)
  then have "a \<notin> set xs" by auto
  with assms show ?thesis
  proof (induction xs arbitrary: p)
    case Nil
    then show ?case by simp
  next
    case (Cons x xs)
    then show ?case by auto
  qed
qed

lemma pop_fifo_many:
  assumes "queue_list h m_head xs" "1 < length xs"
  shows "pop True h m_head =
           Some (h(last (butlast xs) := (h (last (butlast xs)))\<lparr>m_next := None\<rparr>),
                 m_head, Some (last xs))"
    and "queue_list (h(last (butlast xs) := (h (last (butlast xs)))\<lparr>m_next := None\<rparr>))
           m_head (butlast xs)"
proof -
  from assms obtain x y ys where xs: "xs = x # y # ys"
    by (cases xs; cases "tl xs") auto
  with assms have "m_head = Some x" by simp
  with assms xs pop_walk_last[of h x y ys]
  show "pop True h m_head =
           Some (h(last (butlast xs) := (h (last (butlast xs)))\<lparr>m_next := None\<rparr>),
                 m_head, Some (last xs))"
    by (simp add: pop_def)
  obtain zs a b where ab: "xs = zs @ [a, b]"
    using assms(2)
    by (metis xs append_butlast_last_id append.assoc append_Cons append_Nil butlast.simps(2)
        list.distinct(1))
  with assms(1) have "queue_list (h(a := (h a)\<lparr>m_next := None\<rparr>)) m_head (zs @ [a])"
    by (auto dest: queue_list_detach)
  with ab
  show "queue_list (h(last (butlast xs) := (h (last (butlast xs)))\<lparr>m_next := None\<rparr>))
          m_head (butlast xs)"
    by (simp add: butlast_append)
qed

lemma pop_fifo_one:
  assumes "queue_list h m_head [x]"
  shows "pop True h m_head = Some (h, None, Some x)"
  using assms by (simp add: pop_def pop_cas_def pop_walk.simps)

lemma pop_empty: "pop FIFO h None = Some (h, None, None)"
  by (simp add: pop_def)

lemma pop_n_queue:
  "queue_list h m_head xs \<Longrightarrow>
   \<exists>h'. pop_n (length xs) h m_head = Some (h', None, map Some (rev xs))"
proof (induction xs arbitrary: h rule: rev_induct)
  case Nil
  then show ?case by simp
next
  case (snoc x xs)
  show ?case
  proof (cases xs)
    case Nil
    with snoc.prems pop_fifo_one[of h m_head x] show ?thesis by simp
  next
    case (Cons a as)
    then have len: "1 < length (xs @ [x])" by simp
    note p = pop_fifo_many[OF snoc.prems len]
    from p(2) snoc.IH obtain h' where
      "pop_n (length xs) (h(last xs := (h (last xs))\<lparr>m_next := None\<rparr>)) m_head =
         Some (h', None, map Some (rev xs))"
      by fastforce
    with p(1) show ?thesis by simp
  qed
qed

lemma push_all_queue:
  "queue_list h m_head xs \<Longrightarrow> distinct js \<Longrightarrow> set js \<inter> set xs = {} \<Longrightarrow>
   queue_list (fst (push_all h m_head js)) (snd (push_all h m_head js)) (rev js @ xs)"
proof (induction js arbitrary: h m_head xs)
  case Nil
  then show ?case by simp
next
  case (Cons j js)
  have "queue_list (fst (push h m_head j)) (snd (push h m_head j)) (j # xs)"
    using Cons.prems by (intro queue_list_push) auto
  from Cons.IH[OF this] Cons.prems show ?case
    by (simp add: case_prod_beta)
qed

lemma push_all_pop_n:
  "distinct js \<Longrightarrow>
   \<exists>h'. pop_n (length js) (fst (push_all h None js)) (snd (push_all h None js)) =
          Some (h', None, map Some js)"
  using push_all_queue[of h None "[]" js]
    pop_n_queue[of "fst (push_all h None js)" "snd (push_all h None js)" "rev js"]
  by simp

lemma pop_fifo:
  assumes "queue_list h m_head xs"
  shows "\<exists>h' m_head'.
           pop True h m_head = Some (h', m_head', if xs = [] then None else Some (last xs)) \<and>
           queue_list h' m_head' (butlast xs) \<and>
           (if 1 < length xs
            then m_head' = m_head \<and>
                 h' = h(last (butlast xs) := (h (last (butlast xs)))\<lparr>m_next := None\<rparr>)
            else m_head' = None \<and> h' = h)"
proof (cases "1 < length xs")
  case True
  with pop_fifo_many[OF assms True] show ?thesis by auto
next
  case False
  show ?thesis
  proof (cases xs)
    case Nil
    with assms show ?thesis by (simp add: pop_empty)
  next
    case (Cons x ys)
    with False have xs: "xs = [x]" by simp
    with assms pop_fifo_one[of h m_head x] show ?thesis by simp
  qed
qed

section \<open>Scheduling\<close>

lemma schedule_default:
  "schedule s job (- 1) =
     Some (s\<lparr>jobs := (jobs s)(job := (jobs s job)\<lparr>m_next := m_central_queue s\<rparr>),
             m_central_queue := Some job\<rparr>)"
  by (simp add: schedule_def push_def)

text \<open>
  A thread argument outside \<open>[0, m_thread_count)\<close> sends the job to the central
  queue, as \<open>-1\<close> does.
\<close>

lemma schedule_out_of_range:
  "\<not> (0 \<le> sint thd \<and> sint thd < sint (m_thread_count s)) \<Longrightarrow>
   schedule s job thd = schedule s job (- 1)"
  by (auto simp: schedule_def push_def)

text \<open>
  A thread argument inside the range sends the job to the local queue of the thread
  that calls \<open>schedule\<close>; the value of \<open>thd\<close> does not select the queue.
\<close>

lemma schedule_in_range:
  "0 \<le> sint thd \<Longrightarrow> sint thd < sint (m_thread_count s) \<Longrightarrow>
   unat (m_thread_index_tl s) < length (m_local_queues s) \<Longrightarrow>
   schedule s job thd =
     Some (s\<lparr>jobs := (jobs s)(job := (jobs s job)
                     \<lparr>m_next := m_local_queues s ! unat (m_thread_index_tl s)\<rparr>),
             m_local_queues := (m_local_queues s)[unat (m_thread_index_tl s) := Some job]\<rparr>)"
  by (simp add: schedule_def push_def Let_def)

text \<open>
  C1. The claim: \<open>schedule(job, thd)\<close> with \<open>thd\<close> in \<open>[0, n_workers)\<close> pushes the
  job onto the local queue of worker \<open>thd\<close>, and any other \<open>thd\<close> pushes it onto a
  global queue. The second half holds (\<open>schedule_out_of_range\<close>). The first does not:
  with two workers, thread 0 calling \<open>schedule(job, 1)\<close> puts the job at address 5
  into the local queue of worker 0; the local queue of worker 1 and the central queue
  stay empty.
\<close>

theorem schedule_thd_1_from_thread_0:
  "schedule two_workers 5 1 \<noteq> None \<and>
   thread_index two_workers = 0 \<and>
   m_local_queues two_workers = [None, None] \<and>
   m_local_queues (the (schedule two_workers 5 1)) = [Some 5, None] \<and>
   m_central_queue (the (schedule two_workers 5 1)) = None"
  by code_simp

section \<open>First-in first-out\<close>

text \<open>
  C7. For the FIFO variant with a single consumer and no concurrent access: when the
  queue holds more than one job, \<open>pop\<close> walks to the tail, detaches it by nulling the
  \<open>m_next\<close> of its predecessor (the head pointer is untouched) and returns the tail;
  when it holds exactly one job, \<open>pop\<close> takes it from the head and the queue becomes
  empty. Since \<open>push\<close> prepends, the tail is the job pushed earliest, and popping as
  often as jobs were pushed returns the jobs in the order of the pushes. \<open>xs\<close> lists
  the queue from the head.
\<close>

theorem JobQueue_fifo:
  assumes "queue_list h m_head xs"
  shows "(\<exists>h' m_head'.
            pop True h m_head = Some (h', m_head', if xs = [] then None else Some (last xs)) \<and>
            queue_list h' m_head' (butlast xs) \<and>
            (if 1 < length xs
             then m_head' = m_head \<and>
                  h' = h(last (butlast xs) := (h (last (butlast xs)))\<lparr>m_next := None\<rparr>)
             else m_head' = None \<and> h' = h)) \<and>
         (\<exists>h'. pop_n (length xs) h m_head = Some (h', None, map Some (rev xs))) \<and>
         (pJob \<notin> set xs \<longrightarrow>
            queue_list (fst (push h m_head pJob)) (snd (push h m_head pJob)) (pJob # xs)) \<and>
         (distinct js \<longrightarrow>
            (\<exists>h'. pop_n (length js) (fst (push_all h None js)) (snd (push_all h None js)) =
                     Some (h', None, map Some js)))"
  using pop_fifo[OF assms] pop_n_queue[OF assms] queue_list_push[OF assms, of pJob]
    push_all_pop_n[of js h]
  by blast

theorem JobQueue_fifo_witness:
  "queue_list fifo_heap (Some 6) [6, 5, 4] \<and>
   (\<exists>h'. pop True fifo_heap (Some 6) = Some (h', Some 6, Some 4) \<and>
          queue_list h' (Some 6) [6, 5]) \<and>
   (\<exists>h'. pop_n 3 fifo_heap (Some 6) = Some (h', None, [Some 4, Some 5, Some 6])) \<and>
   queue_list (fst (push fifo_heap (Some 6) 7)) (snd (push fifo_heap (Some 6) 7)) [7, 6, 5, 4] \<and>
   (\<exists>h'. pop_n 3 (fst (push_all fifo_heap None [1, 2, 3])) (snd (push_all fifo_heap None [1, 2, 3])) =
            Some (h', None, [Some 1, Some 2, Some 3]))"
proof -
  have q: "queue_list fifo_heap (Some 6) [6, 5, 4]"
    by (simp add: fifo_heap_def push_def)
  note t = JobQueue_fifo[OF q, of 7 "[1, 2, 3]"]
  from t obtain h' m_head' where
    "pop True fifo_heap (Some 6) =
       Some (h', m_head', if [6, 5, 4 :: addr] = [] then None else Some (last [6, 5, 4]))"
    "queue_list h' m_head' (butlast [6, 5, 4])"
    "if 1 < length [6, 5, 4 :: addr]
     then m_head' = Some 6 \<and>
          h' = fifo_heap(last (butlast [6, 5, 4]) :=
                 (fifo_heap (last (butlast [6, 5, 4])))\<lparr>m_next := None\<rparr>)
     else m_head' = None \<and> h' = fifo_heap"
    by blast
  then have "pop True fifo_heap (Some 6) = Some (h', Some 6, Some 4) \<and>
             queue_list h' (Some 6) [6, 5]"
    by simp
  then have a: "\<exists>h'. pop True fifo_heap (Some 6) = Some (h', Some 6, Some 4) \<and>
                     queue_list h' (Some 6) [6, 5]" by blast
  from t obtain h'' where
    "pop_n (length [6, 5, 4 :: addr]) fifo_heap (Some 6) =
       Some (h'', None, map Some (rev [6, 5, 4]))"
    by blast
  then have "pop_n 3 fifo_heap (Some 6) = Some (h'', None, [Some 4, Some 5, Some 6])"
    by (simp only: length_Cons list.size rev.simps append.simps list.map numeral_3_eq_3 One_nat_def add_0 plus_nat.simps)
  then have b: "\<exists>h'. pop_n 3 fifo_heap (Some 6) = Some (h', None, [Some 4, Some 5, Some 6])" by blast
  from t have c: "queue_list (fst (push fifo_heap (Some 6) 7)) (snd (push fifo_heap (Some 6) 7))
                    [7, 6, 5, 4]"
    by simp
  from t obtain h3 where
    "pop_n (length [1, 2, 3 :: addr]) (fst (push_all fifo_heap None [1, 2, 3]))
       (snd (push_all fifo_heap None [1, 2, 3])) = Some (h3, None, map Some [1, 2, 3])"
    by auto
  then have "pop_n 3 (fst (push_all fifo_heap None [1, 2, 3]))
       (snd (push_all fifo_heap None [1, 2, 3])) = Some (h3, None, [Some 1, Some 2, Some 3])"
    by (simp only: length_Cons list.size list.map numeral_3_eq_3 One_nat_def add_0 plus_nat.simps)
  then have d: "\<exists>h'. pop_n 3 (fst (push_all fifo_heap None [1, 2, 3]))
       (snd (push_all fifo_heap None [1, 2, 3])) = Some (h', None, [Some 1, Some 2, Some 3])" by blast
  from q a b c d show ?thesis by blast
qed

section \<open>Completion protocol\<close>

text \<open>\<open>on_finished\<close> in terms of \<open>child_finished\<close>, as the source writes it.\<close>

lemma on_finished_child_finished:
  "on_finished s J =
     (case on_finished_continuation s J of
        None \<Rightarrow> None
      | Some s1 \<Rightarrow>
          (case m_parent (jobs s1 J) of
             None \<Rightarrow> Some s1
           | Some p \<Rightarrow> child_finished s1 p))"
  by (subst on_finished.simps) (simp add: child_finished_def split: option.splits)

lemma schedule_coro_eq:
  "schedule_coro s coro =
     schedule (upd (case m_current_job s of
                      None \<Rightarrow> s
                    | Some p \<Rightarrow> upd s p (\<lambda>j. j\<lparr>m_children := m_children j + 1\<rparr>))
                 coro (\<lambda>j. j\<lparr>m_coro_parent := m_current_job s\<rparr>)) coro (- 1)"
  by (simp add: schedule_coro_def Let_def)

lemma schedule_coro_children_of:
  "schedule_coro s coro = Some s' \<Longrightarrow>
   m_children (jobs s' q) =
     (if m_current_job s = Some q then m_children (jobs s q) + 1 else m_children (jobs s q))"
  by (cases "m_current_job s") (auto simp: schedule_coro_eq schedule_default)



text \<open>
  C3. Let \<open>on_finished\<close> run on a job \<open>J\<close> with parent \<open>p\<close>. The first half of the
  function returns a state \<open>s2\<close>, and \<open>on_finished\<close> then is \<open>child_finished\<close> on \<open>p\<close>
  from \<open>s2\<close>. If \<open>J\<close> has a continuation \<open>c\<close>, then \<open>s2\<close> is reached through a state
  \<open>s1\<close> in which the children counter of \<open>p\<close> is one more than before and the parent
  field of \<open>c\<close> is \<open>p\<close>, while the central queue is still as before; \<open>s2\<close> is the
  result of scheduling \<open>c\<close> from \<open>s1\<close>, with \<open>c\<close> at the head of the central queue.
\<close>

theorem on_finished_parent:
  assumes "m_parent (jobs s J) = Some p"
  shows "\<exists>s2. on_finished_continuation s J = Some s2 \<and>
           on_finished s J = child_finished s2 p \<and>
           (\<forall>c. m_continuation (jobs s J) = Some c \<longrightarrow>
              (\<exists>s1. m_children (jobs s1 p) = m_children (jobs s p) + 1 \<and>
                     m_parent (jobs s1 c) = Some p \<and>
                     m_central_queue s1 = m_central_queue s \<and>
                     schedule s1 c (- 1) = Some s2 \<and>
                     m_central_queue s2 = Some c \<and>
                     m_children (jobs s2 p) = m_children (jobs s p) + 1 \<and>
                     m_parent (jobs s2 c) = Some p))"
proof (cases "m_continuation (jobs s J)")
  case None
  with assms show ?thesis
    by (simp add: on_finished_child_finished on_finished_continuation_def)
next
  case (Some c)
  define s' where "s' = upd s p (\<lambda>j. j\<lparr>m_children := m_children j + 1\<rparr>)"
  define s1 where "s1 = upd s' c (\<lambda>j. j\<lparr>m_parent := m_parent (jobs s' J)\<rparr>)"
  define s2 where "s2 = s1\<lparr>jobs := (jobs s1)(c := (jobs s1 c)\<lparr>m_next := m_central_queue s1\<rparr>),
                           m_central_queue := Some c\<rparr>"
  have mp: "m_parent (jobs s' J) = Some p"
    using assms by (auto simp: s'_def)
  have c: "on_finished_continuation s J = Some s2"
    using assms Some
    by (simp add: on_finished_continuation_def Let_def schedule_default s'_def s1_def s2_def)
  have par: "m_parent (jobs s2 J) = Some p"
    using mp by (simp add: s2_def s1_def)
  have "on_finished s J = child_finished s2 p"
    using c par by (simp add: on_finished_child_finished)
  moreover have "m_children (jobs s1 p) = m_children (jobs s p) + 1"
    "m_parent (jobs s1 c) = Some p" "m_central_queue s1 = m_central_queue s"
    "schedule s1 c (- 1) = Some s2" "m_central_queue s2 = Some c"
    "m_children (jobs s2 p) = m_children (jobs s p) + 1" "m_parent (jobs s2 c) = Some p"
    using mp by (simp_all add: s'_def s1_def s2_def schedule_default)
  ultimately show ?thesis using c Some by auto
qed

theorem on_finished_parent_witness:
  "m_parent (jobs continuation_system 0) = Some 1 \<and>
   m_continuation (jobs continuation_system 0) = Some 2 \<and>
   m_children (jobs continuation_system 1) = 1 \<and>
   (\<exists>s2. on_finished continuation_system 0 = child_finished s2 1 \<and>
      m_central_queue s2 = Some 2 \<and>
      m_children (jobs s2 1) = 2 \<and>
      m_parent (jobs s2 2) = Some 1)"
proof -
  have p: "m_parent (jobs continuation_system 0) = Some 1"
    and c: "m_continuation (jobs continuation_system 0) = Some 2"
    and n: "m_children (jobs continuation_system 1) = 1"
    by (simp_all add: continuation_system_def two_workers_def JobSystem_def idle_heap_def
        Coro_promise_def)
  from on_finished_parent[OF p] c n
  have "\<exists>s2. on_finished continuation_system 0 = child_finished s2 1 \<and>
      m_central_queue s2 = Some 2 \<and>
      m_children (jobs s2 1) = 2 \<and>
      m_parent (jobs s2 2) = Some 1"
    by auto
  with p c n show ?thesis by simp
qed

text \<open>
  C5. \<open>child_finished(P)\<close> takes one from the children counter of \<open>P\<close> and, exactly
  when the counter was 1 before, goes on as \<open>on_finished(P)\<close> from the decremented
  state; otherwise the decremented state is its result.
\<close>

theorem child_finished_decrement:
  "child_finished s P =
     (if m_children (jobs s P) = 1
      then on_finished
             (s\<lparr>jobs := (jobs s)(P := (jobs s P)\<lparr>m_children := m_children (jobs s P) - 1\<rparr>)\<rparr>) P
      else Some (s\<lparr>jobs := (jobs s)(P := (jobs s P)\<lparr>m_children := m_children (jobs s P) - 1\<rparr>)\<rparr>))"
  by (simp add: child_finished_def fetch_sub_def upd_def)

theorem child_finished_decrement_witness:
  "m_children (jobs (upd two_workers 3 (\<lambda>j. j\<lparr>m_children := 2\<rparr>)) 3) = 2 \<and>
   child_finished (upd two_workers 3 (\<lambda>j. j\<lparr>m_children := 2\<rparr>)) 3 =
     Some (upd two_workers 3 (\<lambda>j. j\<lparr>m_children := 1\<rparr>)) \<and>
   m_children (jobs two_workers 3) = 1 \<and>
   child_finished two_workers 3 =
     on_finished (upd two_workers 3 (\<lambda>j. j\<lparr>m_children := 0\<rparr>)) 3"
  using child_finished_decrement[of "upd two_workers 3 (\<lambda>j. j\<lparr>m_children := 2\<rparr>)" 3]
    child_finished_decrement[of two_workers 3]
  by (simp add: upd_def two_workers_def JobSystem_def idle_heap_def Coro_promise_def)

text \<open>
  C8. When a coroutine runs into \<open>co_return t\<close> and so to its final suspension
  point, the call returns with the frame suspended at the final point (not
  destroyed), the parent field set to what \<open>m_coro_parent\<close> was, the continuation
  field null and \<open>t\<close> retrievable through \<open>get\<close>. Resuming the promise again changes
  nothing, and its \<open>on_finished\<close> schedules no continuation: it is
  \<open>child_finished\<close> on the coroutine parent, or nothing when there is none.
\<close>

theorem final_suspension:
  "\<exists>s'. coro_run s this (Co_return t) = Some s' \<and>
     m_parent (jobs s' this) = m_coro_parent (jobs s this) \<and>
     m_continuation (jobs s' this) = None \<and>
     m_coro (jobs s' this) = Done \<and>
     get s' this = t \<and>
     resume s' this = Some s' \<and>
     on_finished s' this =
       (case m_coro_parent (jobs s this) of None \<Rightarrow> Some s' | Some q \<Rightarrow> child_finished s' q)"
  by (auto simp: awaiter_base_await_ready_def final_awaiter_await_suspend_def return_value_def
       get_def resume_def on_finished_child_finished on_finished_continuation_def
       split: option.splits)

theorem final_suspension_witness:
  "m_coro_parent (jobs (upd two_workers 3 (\<lambda>j. j\<lparr>m_coro_parent := Some 4\<rparr>)) 3) = Some 4 \<and>
   (\<exists>s'. coro_run (upd two_workers 3 (\<lambda>j. j\<lparr>m_coro_parent := Some 4\<rparr>)) 3 (Co_return 9) = Some s' \<and>
      m_parent (jobs s' 3) = Some 4 \<and>
      m_continuation (jobs s' 3) = None \<and>
      m_coro (jobs s' 3) = Done \<and>
      get s' 3 = 9 \<and>
      on_finished s' 3 = child_finished s' 4)"
  using final_suspension[of "upd two_workers 3 (\<lambda>j. j\<lparr>m_coro_parent := Some 4\<rparr>)" 3 9]
  by auto

section \<open>Promises along an execution\<close>

text \<open>
  The fields \<open>promise_ok\<close> speaks about are written only by the coroutine body
  (\<open>return_value\<close>, the final awaiter, the frame itself) and by the hand-over of a
  continuation in \<open>on_finished\<close>; queues, counters, \<open>m_coro_parent\<close> and
  \<open>m_thread_index\<close> do not matter to it.
\<close>

lemma promise_ok_pcore: "pcore j' = pcore j \<Longrightarrow> promise_ok T0 r p j' = promise_ok T0 r p j"
  by (cases "m_coro j") (auto simp: promise_ok_def pcore_def)

lemma promise_inv_pcore:
  assumes "\<And>p. pcore (h' p) = pcore (h p)" "promise_inv T0 res h"
  shows "promise_inv T0 res h'"
  unfolding promise_inv_def
proof
  fix p
  from assms(2) have "promise_ok T0 (res p) p (h p)"
    unfolding promise_inv_def by (rule spec)
  then show "promise_ok T0 (res p) p (h' p)"
    by (simp only: promise_ok_pcore[OF assms(1)])
qed

lemma pcore_simps [simp]:
  "pcore (j\<lparr>m_next := n\<rparr>) = pcore j"
  "pcore (j\<lparr>m_children := c\<rparr>) = pcore j"
  "pcore (j\<lparr>m_coro_parent := cp\<rparr>) = pcore j"
  "pcore (j\<lparr>m_thread_index := k\<rparr>) = pcore j"
  by (simp_all add: pcore_def)

lemma pop_walk_pcore:
  "pop_walk h head = Some r \<Longrightarrow> r = Inr (h', j) \<Longrightarrow> pcore (h' p) = pcore (h p)"
proof (induction rule: pop_walk.raw_induct[rotated 1, consumes 1])
  case (1 pop_walk' h head r)
  show ?case
  proof (cases "m_next (h head)")
    case None
    with 1 show ?thesis by simp
  next
    case nxt: (Some n)
    show ?thesis
    proof (cases "m_next (h n)")
      case None
      with nxt 1 show ?thesis by auto
    next
      case (Some n')
      with nxt 1 have "pop_walk' h n = Some r" by simp
      with 1 show ?thesis by blast
    qed
  qed
qed

lemma pop_pcore:
  assumes "pop FIFO h m_head = Some (h', m_head', j)"
  shows "pcore (h' p) = pcore (h p)"
proof (cases m_head)
  case None
  with assms show ?thesis by (simp add: pop_def)
next
  case (Some head)
  show ?thesis
  proof (cases FIFO)
    case False
    with Some assms show ?thesis by (simp add: pop_def split: prod.splits)
  next
    case True
    show ?thesis
    proof (cases "pop_walk h head")
      case None
      with True Some assms show ?thesis by (simp add: pop_def)
    next
      case walk: (Some r)
      show ?thesis
      proof (cases r)
        case (Inl x)
        with walk True Some assms show ?thesis by (simp add: pop_def split: prod.splits)
      next
        case (Inr y)
        obtain h'' j' where y: "y = (h'', j')" by (cases y)
        with Inr walk True Some assms have "h'' = h'" by (simp add: pop_def)
        with pop_walk_pcore[OF walk, of h'' j' p] Inr y show ?thesis by simp
      qed
    qed
  qed
qed

lemma schedule_pcore:
  "schedule s job thd = Some s' \<Longrightarrow> pcore (jobs s' p) = pcore (jobs s p)"
  by (auto simp: schedule_def push_def Let_def split: if_splits)

lemma schedule_coro_pcore:
  "schedule_coro s coro = Some s' \<Longrightarrow> pcore (jobs s' p) = pcore (jobs s p)"
  by (auto simp: schedule_coro_def Let_def split: option.splits dest!: schedule_pcore[where p = p])

lemma fetch_sub_pcore: "pcore (jobs (snd (fetch_sub s a)) p) = pcore (jobs s p)"
  by (simp add: fetch_sub_def)

lemma on_finished_continuation_inv:
  assumes "promise_inv T0 res (jobs s)" "on_finished_continuation s this = Some s1"
  shows "pcore (jobs s1 p) = pcore (jobs s p)"
proof (cases "m_continuation (jobs s this)")
  case None
  with assms show ?thesis by (simp add: on_finished_continuation_def)
next
  case (Some c)
  from assms(1) have ok: "promise_ok T0 (res this) this (jobs s this)"
    by (simp add: promise_inv_def)
  with Some have "m_parent (jobs s this) = None"
    by (auto simp: promise_ok_def split: frame.splits)
  with assms(2) Some show ?thesis
    by (auto simp: on_finished_continuation_def dest: schedule_pcore[where p = p])
qed

lemma on_finished_inv:
  "on_finished s this = Some s' \<Longrightarrow> promise_inv T0 res (jobs s) \<Longrightarrow> promise_inv T0 res (jobs s')"
proof (induction rule: on_finished.raw_induct[rotated 1, consumes 1])
  case (1 on_finished' s this s')
  note IH = "1.IH" and eq = "1.hyps" and inv = "1.prems"
  from eq obtain s1 where s1: "on_finished_continuation s this = Some s1"
    by (auto split: option.splits)
  have inv1: "promise_inv T0 res (jobs s1)"
    using on_finished_continuation_inv[OF inv s1] inv
    by (auto intro: promise_inv_pcore)
  have inv2: "promise_inv T0 res (jobs (snd (fetch_sub s1 a)))" for a
    using inv1 by (auto intro: promise_inv_pcore simp: fetch_sub_pcore)
  show ?case
  proof (cases "m_parent (jobs s1 this)")
    case None
    with eq s1 inv1 show ?thesis by simp
  next
    case (Some p)
    show ?thesis
    proof (cases "fst (fetch_sub s1 p) = 1")
      case True
      with eq s1 Some have "on_finished' (snd (fetch_sub s1 p)) p = Some s'" by simp
      from IH[OF this inv2] show ?thesis .
    next
      case False
      with eq s1 Some inv2 show ?thesis by auto
    qed
  qed
qed

lemma promise_inv_frame:
  assumes "promise_inv T0 res (jobs (upd s this (\<lambda>j. j\<lparr>m_coro := Suspended b\<rparr>)))"
    and "result_of b' = result_of b"
  shows "promise_inv T0 res (jobs (upd s this (\<lambda>j. j\<lparr>m_coro := Suspended b'\<rparr>)))"
  unfolding promise_inv_def
proof
  fix p
  from assms(1) have "promise_ok T0 (res p) p (jobs (upd s this (\<lambda>j. j\<lparr>m_coro := Suspended b\<rparr>)) p)"
    unfolding promise_inv_def by (rule spec)
  with assms(2) show "promise_ok T0 (res p) p (jobs (upd s this (\<lambda>j. j\<lparr>m_coro := Suspended b'\<rparr>)) p)"
    by (simp add: promise_ok_def split: if_splits)
qed

lemma coro_run_inv:
  "coro_run s this b = Some s' \<Longrightarrow>
   promise_inv T0 res (jobs (upd s this (\<lambda>j. j\<lparr>m_coro := Suspended b\<rparr>))) \<Longrightarrow>
   promise_inv T0 res (jobs s')"
proof (induction s this b rule: coro_run.induct)
  case (1 s this t)
  have s': "s' = final_awaiter_await_suspend (upd (return_value s this t) this (\<lambda>j. j\<lparr>m_coro := Done\<rparr>)) this"
    using "1.prems"(1) by (simp add: awaiter_base_await_ready_def)
  show ?case
    unfolding promise_inv_def
  proof
    fix p
    from "1.prems"(2) have "promise_ok T0 (res p) p (jobs (upd s this (\<lambda>j. j\<lparr>m_coro := Suspended (Co_return t)\<rparr>)) p)"
      unfolding promise_inv_def by (rule spec)
    then show "promise_ok T0 (res p) p (jobs s' p)"
      by (auto simp: s' promise_ok_def final_awaiter_await_suspend_def return_value_def
            split: if_splits frame.splits)
  qed
next
  case (2 s this child rest)
  have inv: "promise_inv T0 res (jobs (upd s this (\<lambda>j. j\<lparr>m_coro := Suspended rest\<rparr>)))"
    using "2.prems"(2) by (rule promise_inv_frame) simp
  from "2.prems"(1) have "schedule_coro (upd s this (\<lambda>j. j\<lparr>m_coro := Suspended rest\<rparr>)) child = Some s'"
    by (simp add: awaitable_coro_await_ready_def awaitable_coro_await_suspend_def)
  from schedule_coro_pcore[OF this] inv show ?case
    by (rule promise_inv_pcore)
next
  case (3 s this k rest)
  have inv: "promise_inv T0 res (jobs (upd s this (\<lambda>j. j\<lparr>m_coro := Suspended rest\<rparr>)))"
    using "3.prems"(2) by (rule promise_inv_frame) simp
  show ?case
  proof (cases "awaitable_resume_on_await_ready s k")
    case True
    with "3.prems"(1) have "coro_run s this rest = Some s'" by simp
    from "3.IH"[OF True this inv] show ?thesis .
  next
    case False
    with "3.prems"(1) have "s' = awaitable_resume_on_await_suspend (upd s this (\<lambda>j. j\<lparr>m_coro := Suspended rest\<rparr>)) this k"
      by simp
    then have "pcore (jobs s' p) = pcore (jobs (upd s this (\<lambda>j. j\<lparr>m_coro := Suspended rest\<rparr>)) p)" for p
      by (simp add: awaitable_resume_on_await_suspend_def)
    from this inv show ?thesis by (rule promise_inv_pcore)
  qed
qed

lemma resume_inv:
  assumes "resume s this = Some s'" "promise_inv T0 res (jobs s)"
  shows "promise_inv T0 res (jobs s')"
proof (cases "m_coro (jobs s this)")
  case (Suspended b)
  with assms(1) have run: "coro_run (upd s this (\<lambda>j. j\<lparr>m_children := 1\<rparr>)) this b = Some s'"
    by (simp add: resume_def)
  have "pcore (jobs (upd (upd s this (\<lambda>j. j\<lparr>m_children := 1\<rparr>)) this (\<lambda>j. j\<lparr>m_coro := Suspended b\<rparr>)) p) = pcore (jobs s p)" for p
    using Suspended by (simp add: pcore_def)
  from this assms(2) have "promise_inv T0 res (jobs (upd (upd s this (\<lambda>j. j\<lparr>m_children := 1\<rparr>)) this (\<lambda>j. j\<lparr>m_coro := Suspended b\<rparr>)))"
    by (rule promise_inv_pcore)
  with run show ?thesis by (rule coro_run_inv)
next
  case Done
  with assms show ?thesis by (simp add: resume_def)
next
  case Destroyed
  with assms show ?thesis by (simp add: resume_def)
qed

lemma Job_call_inv:
  assumes "Job_call s this = Some s'" "promise_inv T0 res (jobs s)"
  shows "promise_inv T0 res (jobs s')"
proof -
  from assms(1) obtain s1 where s1: "resume (upd s this (\<lambda>j. j\<lparr>m_children := 1\<rparr>)) this = Some s1"
    by (auto simp: Job_call_def split: option.splits)
  have "pcore (jobs (upd s this (\<lambda>j. j\<lparr>m_children := 1\<rparr>)) p) = pcore (jobs s p)" for p
    by simp
  from this assms(2) have "promise_inv T0 res (jobs (upd s this (\<lambda>j. j\<lparr>m_children := 1\<rparr>)))"
    by (rule promise_inv_pcore)
  with s1 have inv1: "promise_inv T0 res (jobs s1)" by (rule resume_inv)
  have inv2: "promise_inv T0 res (jobs (snd (fetch_sub s1 this)))"
    using fetch_sub_pcore inv1 by (rule promise_inv_pcore)
  show ?thesis
  proof (cases "fst (fetch_sub s1 this) = 1")
    case True
    with assms(1) s1 have "on_finished (snd (fetch_sub s1 this)) this = Some s'"
      by (simp add: Job_call_def)
    from this inv2 show ?thesis by (rule on_finished_inv)
  next
    case False
    with assms(1) s1 inv2 show ?thesis by (simp add: Job_call_def)
  qed
qed

lemma thread_task_fetch_pcore:
  assumes "thread_task_fetch s = Some s'"
  shows "pcore (jobs s' p) = pcore (jobs s p)"
proof -
  define i where "i = unat (m_thread_index_tl s)"
  from assms have len: "i < length (m_local_queues s)"
    by (simp add: thread_task_fetch_def i_def Let_def split: if_splits)
  with assms obtain h mh j where p1: "pop True (jobs s) (m_local_queues s ! i) = Some (h, mh, j)"
    by (auto simp: thread_task_fetch_def i_def Let_def split: option.splits)
  note c1 = pop_pcore[OF p1, of p]
  show ?thesis
  proof (cases j)
    case (Some a)
    with assms len p1 have "jobs s' = h"
      by (auto simp: thread_task_fetch_def i_def Let_def)
    with c1 show ?thesis by simp
  next
    case None
    with assms len p1 obtain h' mh' j' where p2: "pop False h (m_central_queue s) = Some (h', mh', j')"
      and "jobs s' = h'"
      by (auto simp: thread_task_fetch_def i_def Let_def split: option.splits)
    with pop_pcore[OF p2, of p] c1 show ?thesis by simp
  qed
qed

lemma thread_task_round_inv:
  assumes "thread_task_round s = Some s'" "promise_inv T0 res (jobs s)"
  shows "promise_inv T0 res (jobs s')"
proof -
  from assms(1) obtain s2 where s2: "thread_task_fetch s = Some s2"
    by (auto simp: thread_task_round_def split: option.splits)
  from thread_task_fetch_pcore[OF s2] assms(2) have inv2: "promise_inv T0 res (jobs s2)"
    by (rule promise_inv_pcore)
  show ?thesis
  proof (cases "m_current_job s2")
    case None
    with assms(1) s2 inv2 show ?thesis by (simp add: thread_task_round_def)
  next
    case (Some job)
    with assms(1) s2 have "Job_call s2 job = Some s'" by (simp add: thread_task_round_def)
    from this inv2 show ?thesis by (rule Job_call_inv)
  qed
qed

lemma exec_inv:
  assumes "exec e s = Some s'" "promise_inv T0 res (jobs s)"
  shows "promise_inv T0 res (jobs s')"
proof (cases e)
  case Round
  with assms show ?thesis by (auto dest: thread_task_round_inv)
next
  case (Submit c)
  with assms(1) have "schedule_coro s c = Some s'" by simp
  from schedule_coro_pcore[OF this] assms(2) show ?thesis by (rule promise_inv_pcore)
next
  case (Switch t j)
  with assms show ?thesis by auto
qed

lemma run_inv:
  "run es s = Some s' \<Longrightarrow> promise_inv T0 res (jobs s) \<Longrightarrow> promise_inv T0 res (jobs s')"
proof (induction es arbitrary: s)
  case Nil
  then show ?case by simp
next
  case (Cons e es)
  from Cons.prems(1) obtain s1 where e: "exec e s = Some s1" and r: "run es s1 = Some s'"
    by (auto split: option.splits)
  from Cons.IH[OF r exec_inv[OF e Cons.prems(2)]] show ?case .
qed

lemma fresh_inv:
  "(\<forall>a. h a = Coro_promise T0 a (bodies a)) \<Longrightarrow> promise_inv T0 (\<lambda>a. result_of (bodies a)) h"
  by (simp add: promise_inv_def promise_ok_def Coro_promise_def)

text \<open>
  Along any execution from promises as their constructors leave them, the promise
  at \<open>a\<close> with body \<open>bodies a\<close>: \<open>get\<close> on a promise at its final suspension
  returns the value the body handed to \<open>co_return\<close>, on any other promise the
  value-initialised slot \<open>T0\<close>; \<open>return_value\<close> stores what \<open>get\<close> returns
  from then on.
\<close>

lemma get_along_run:
  assumes "\<forall>a. jobs s0 a = Coro_promise T0 a (bodies a)"
    and "run es s0 = Some s"
  shows "get s F = (if m_coro (jobs s F) = Done then result_of (bodies F) else T0) \<and>
         get (return_value s F t) F = t"
proof -
  from assms(1) have "promise_inv T0 (\<lambda>a. result_of (bodies a)) (jobs s0)"
    by (rule fresh_inv)
  with assms(2) have "promise_inv T0 (\<lambda>a. result_of (bodies a)) (jobs s)"
    by (rule run_inv)
  then have "promise_ok T0 (result_of (bodies F)) F (jobs s F)"
    unfolding promise_inv_def by (rule spec)
  then show ?thesis
    by (cases "m_coro (jobs s F)") (simp_all add: promise_ok_def get_def return_value_def)
qed

text \<open>
  C6. The claim: \<open>get\<close> returns a defined value if and only if the promise has
  reached its \<open>co_return\<close>. \<open>get\<close> returns \<open>m_value\<close> whatever the state of the
  frame, and the constructor value-initialises \<open>m_value\<close>. In \<open>two_workers\<close> the
  coroutine at 3 has the body \<open>co_return 0\<close>: before it is scheduled, and when it
  is scheduled but has not run, \<open>get\<close> returns 0, the same defined value it returns
  after the \<open>co_return\<close>. In \<open>hop_system\<close> the coroutine at 0 is suspended before
  its \<open>co_return 7\<close> and \<open>get\<close> returns 0. What \<open>get\<close> returns does not tell
  whether the \<open>co_return\<close> was reached.
\<close>

theorem get_before_co_return:
  "get two_workers 3 = 0 \<and>
   run [Submit 3] two_workers \<noteq> None \<and>
   m_coro (jobs (the (run [Submit 3] two_workers)) 3) = Suspended (Co_return 0) \<and>
   get (the (run [Submit 3] two_workers)) 3 = 0 \<and>
   run [Submit 3, Round] two_workers \<noteq> None \<and>
   m_coro (jobs (the (run [Submit 3, Round] two_workers)) 3) = Done \<and>
   get (the (run [Submit 3, Round] two_workers)) 3 = 0 \<and>
   run [Submit 0, Round] hop_system \<noteq> None \<and>
   m_coro (jobs (the (run [Submit 0, Round] hop_system)) 0) = Suspended (Co_return 7) \<and>
   get (the (run [Submit 0, Round] hop_system)) 0 = 0"
  by code_simp

text \<open>
  What \<open>on_finished\<close> does for a job that is its own continuation and has no
  parent: it puts the job onto the central queue, and nothing else.
\<close>

lemma on_finished_own_continuation:
  assumes "m_continuation (jobs s P) = Some P" "m_parent (jobs s P) = None"
  shows "on_finished s P =
           Some (s\<lparr>jobs := (jobs s)(P := (jobs s P)\<lparr>m_next := m_central_queue s\<rparr>),
                   m_central_queue := Some P\<rparr>)"
  using assms
  by (simp add: on_finished_child_finished on_finished_continuation_def schedule_default)

text \<open>
  C10. The constructor makes a promise its own continuation. Along any execution
  from freshly constructed promises, a promise that has not reached its final
  suspension is still its own continuation, and \<open>on_finished\<close> on it puts the
  promise itself back onto the central queue and does nothing else; a promise at its
  final suspension has the null continuation.
\<close>

theorem promise_own_continuation:
  assumes "\<forall>a. jobs s0 a = Coro_promise T0 a (bodies a)"
    and "run es s0 = Some s"
  shows "m_continuation (jobs s0 P) = Some P \<and>
         m_continuation (jobs s P) = (if m_coro (jobs s P) = Done then None else Some P) \<and>
         (m_coro (jobs s P) \<noteq> Done \<longrightarrow>
            on_finished s P =
              Some (s\<lparr>jobs := (jobs s)(P := (jobs s P)\<lparr>m_next := m_central_queue s\<rparr>),
                      m_central_queue := Some P\<rparr>))"
proof -
  from assms(1) have "promise_inv T0 (\<lambda>a. result_of (bodies a)) (jobs s0)"
    by (rule fresh_inv)
  with assms(2) have "promise_inv T0 (\<lambda>a. result_of (bodies a)) (jobs s)"
    by (rule run_inv)
  then have ok: "promise_ok T0 (result_of (bodies P)) P (jobs s P)"
    unfolding promise_inv_def by (rule spec)
  have "m_continuation (jobs s0 P) = Some P"
    using assms(1) by (simp add: Coro_promise_def)
  moreover have "m_continuation (jobs s P) = (if m_coro (jobs s P) = Done then None else Some P)"
    using ok by (cases "m_coro (jobs s P)") (simp_all add: promise_ok_def)
  moreover have "on_finished s P =
      Some (s\<lparr>jobs := (jobs s)(P := (jobs s P)\<lparr>m_next := m_central_queue s\<rparr>),
              m_central_queue := Some P\<rparr>)" if "m_coro (jobs s P) \<noteq> Done"
  proof -
    from ok that have "m_continuation (jobs s P) = Some P" "m_parent (jobs s P) = None"
      by (cases "m_coro (jobs s P)"; simp add: promise_ok_def)+
    then show ?thesis by (rule on_finished_own_continuation)
  qed
  ultimately show ?thesis by blast
qed

theorem promise_own_continuation_witness:
  "(\<forall>a. jobs hop_system a = Coro_promise 0 a (hop_body a)) \<and>
   run [Submit 0, Round] hop_system \<noteq> None \<and>
   m_coro (jobs (the (run [Submit 0, Round] hop_system)) 0) = Suspended (Co_return 7) \<and>
   m_continuation (jobs (the (run [Submit 0, Round] hop_system)) 0) = Some 0 \<and>
   m_central_queue (the (on_finished (the (run [Submit 0, Round] hop_system)) 0)) = Some 0 \<and>
   run [Submit 0, Round, Round] hop_system \<noteq> None \<and>
   m_coro (jobs (the (run [Submit 0, Round, Round] hop_system)) 0) = Done \<and>
   m_continuation (jobs (the (run [Submit 0, Round, Round] hop_system)) 0) = None"
proof -
  have f: "\<forall>a. jobs hop_system a = Coro_promise 0 a (hop_body a)"
    by (simp add: hop_system_def JobSystem_def)
  have n1: "run [Submit 0, Round] hop_system \<noteq> None"
    and c1: "m_coro (jobs (the (run [Submit 0, Round] hop_system)) 0) = Suspended (Co_return 7)"
    and n2: "run [Submit 0, Round, Round] hop_system \<noteq> None"
    and c2: "m_coro (jobs (the (run [Submit 0, Round, Round] hop_system)) 0) = Done"
    by code_simp+
  from n1 have r1: "run [Submit 0, Round] hop_system = Some (the (run [Submit 0, Round] hop_system))"
    by simp
  from n2 have r2: "run [Submit 0, Round, Round] hop_system =
      Some (the (run [Submit 0, Round, Round] hop_system))"
    by simp
  note t1 = promise_own_continuation[OF f r1, of 0]
  from t1 c1 have g1: "m_continuation (jobs (the (run [Submit 0, Round] hop_system)) 0) = Some 0"
    by simp
  from t1 c1 have g2: "m_central_queue (the (on_finished (the (run [Submit 0, Round] hop_system)) 0)) = Some 0"
    by simp
  from promise_own_continuation[OF f r2, of 0] c2
  have g3: "m_continuation (jobs (the (run [Submit 0, Round, Round] hop_system)) 0) = None"
    by simp
  from f n1 c1 g1 g2 n2 c2 g3 show ?thesis by blast
qed

section \<open>The children counter\<close>

text \<open>A decrement of a positive signed 32-bit counter does not wrap.\<close>

lemma sint_dec:
  fixes c :: "32 word"
  assumes "1 \<le> sint c"
  shows "sint (c - 1) = sint c - 1"
proof -
  have lt: "sint c < 2 ^ 31" using sint_lt[of c] by simp
  have "sint (c - 1) = signed_take_bit 31 (sint c - 1)"
    by (simp add: sint_word_ariths)
  also have "\<dots> = sint c - 1"
    using assms lt by (intro signed_take_bit_int_eq_self) simp_all
  finally show ?thesis .
qed

text \<open>
  Running a coroutine body up to its next suspension leaves the counter of the
  promise as it was or adds one (the awaited child, when the promise is the current
  job).
\<close>

lemma coro_run_children:
  "coro_run s this b = Some s' \<Longrightarrow>
   m_children (jobs s' this) = m_children (jobs s this) \<or>
   m_children (jobs s' this) = m_children (jobs s this) + 1"
proof (induction s this b rule: coro_run.induct)
  case (1 s this t)
  then show ?case
    by (auto simp: awaiter_base_await_ready_def final_awaiter_await_suspend_def return_value_def)
next
  case (2 s this child rest)
  from "2.prems" have "schedule_coro (upd s this (\<lambda>j. j\<lparr>m_coro := Suspended rest\<rparr>)) child = Some s'"
    by (simp add: awaitable_coro_await_ready_def awaitable_coro_await_suspend_def)
  from schedule_coro_children_of[OF this, of this] show ?case by (simp split: if_splits)
next
  case (3 s this k rest)
  show ?case
  proof (cases "awaitable_resume_on_await_ready s k")
    case True
    with "3.prems" "3.IH" show ?thesis by simp
  next
    case False
    with "3.prems" show ?thesis by (auto simp: awaitable_resume_on_await_suspend_def)
  qed
qed

lemma resume_children:
  assumes "resume (upd s J (\<lambda>j. j\<lparr>m_children := 1\<rparr>)) J = Some s1"
  shows "m_children (jobs s1 J) = 1 \<or> m_children (jobs s1 J) = 2"
proof (cases "m_coro (jobs s J)")
  case (Suspended b)
  with assms have "coro_run (upd (upd s J (\<lambda>j. j\<lparr>m_children := 1\<rparr>)) J (\<lambda>j. j\<lparr>m_children := 1\<rparr>)) J b = Some s1"
    by (simp add: resume_def)
  from coro_run_children[OF this] show ?thesis by auto
next
  case Done
  with assms show ?thesis by (auto simp: resume_def)
next
  case Destroyed
  with assms show ?thesis by (simp add: resume_def)
qed

text \<open>
  C4. The claim: the children counter of every job is at least 0 at all times, and
  once it has reached 0 no further \<open>child_finished\<close> on the job occurs. In
  \<open>shared_child_system\<close> the coroutines at 0 and 2 are submitted and both await the
  coroutine at 1. After three rounds of the worker the coroutine at 0 has finished
  with counter 0, and the coroutine at 1 has finished with the job at 0 as
  \<open>m_parent\<close>. In the fourth round the coroutine at 2 awaits the finished
  coroutine at 1: \<open>m_coro_parent\<close> of that one becomes 2, its \<open>m_parent\<close> is still
  0, and it is queued. In the fifth round it runs as a job again; \<open>resume\<close> skips
  the done frame, so the final awaiter does not run again, and \<open>on_finished\<close> calls
  \<open>child_finished\<close> on the job at 0 once more: the counter of the job at 0
  becomes -1. The coroutine at 2 stays suspended with counter 1 while every queue is
  empty: nothing resumes it.
\<close>

theorem stale_parent_notified:
  "run [Submit 2, Submit 0, Round, Round, Round] shared_child_system \<noteq> None \<and>
   m_coro (jobs (the (run [Submit 2, Submit 0, Round, Round, Round] shared_child_system)) 0) = Done \<and>
   m_children (jobs (the (run [Submit 2, Submit 0, Round, Round, Round] shared_child_system)) 0) = 0 \<and>
   m_coro (jobs (the (run [Submit 2, Submit 0, Round, Round, Round] shared_child_system)) 1) = Done \<and>
   m_parent (jobs (the (run [Submit 2, Submit 0, Round, Round, Round] shared_child_system)) 1) = Some 0 \<and>
   m_central_queue (the (run [Submit 2, Submit 0, Round, Round, Round] shared_child_system)) = Some 2 \<and>
   run [Submit 2, Submit 0, Round, Round, Round, Round] shared_child_system \<noteq> None \<and>
   m_coro_parent (jobs (the (run [Submit 2, Submit 0, Round, Round, Round, Round]
                                shared_child_system)) 1) = Some 2 \<and>
   m_parent (jobs (the (run [Submit 2, Submit 0, Round, Round, Round, Round]
                           shared_child_system)) 1) = Some 0 \<and>
   m_central_queue (the (run [Submit 2, Submit 0, Round, Round, Round, Round]
                           shared_child_system)) = Some 1 \<and>
   run [Submit 2, Submit 0, Round, Round, Round, Round, Round] shared_child_system \<noteq> None \<and>
   sint (m_children (jobs (the (run [Submit 2, Submit 0, Round, Round, Round, Round, Round]
                                  shared_child_system)) 0)) = - 1 \<and>
   \<not> 0 \<le> sint (m_children (jobs (the (run [Submit 2, Submit 0, Round, Round, Round, Round, Round]
                                        shared_child_system)) 0)) \<and>
   m_coro (jobs (the (run [Submit 2, Submit 0, Round, Round, Round, Round, Round]
                        shared_child_system)) 2) = Suspended (Co_return 10) \<and>
   m_children (jobs (the (run [Submit 2, Submit 0, Round, Round, Round, Round, Round]
                            shared_child_system)) 2) = 1 \<and>
   m_central_queue (the (run [Submit 2, Submit 0, Round, Round, Round, Round, Round]
                           shared_child_system)) = None \<and>
   m_local_queues (the (run [Submit 2, Submit 0, Round, Round, Round, Round, Round]
                          shared_child_system)) = [None]"
  by code_simp

text \<open>
  When the coroutine that awaits a finished coroutine is the one that awaited it
  before, the notification reaches the awaiting job: in \<open>same_parent_system\<close> the
  second \<open>co_await\<close> of the coroutine at 0 leaves it suspended with counter 1; the
  finished coroutine at 1 runs as a job again and takes that counter to 0, the
  coroutine at 0 is queued, resumed, and finishes.
\<close>

lemma same_parent_notified:
  "run [Submit 0, Round, Round, Round] same_parent_system \<noteq> None \<and>
   m_coro (jobs (the (run [Submit 0, Round, Round, Round] same_parent_system)) 1) = Done \<and>
   m_coro (jobs (the (run [Submit 0, Round, Round, Round] same_parent_system)) 0) =
     Suspended (Co_return 10) \<and>
   m_children (jobs (the (run [Submit 0, Round, Round, Round] same_parent_system)) 0) = 1 \<and>
   m_central_queue (the (run [Submit 0, Round, Round, Round] same_parent_system)) = Some 1 \<and>
   run [Submit 0, Round, Round, Round, Round] same_parent_system \<noteq> None \<and>
   m_children (jobs (the (run [Submit 0, Round, Round, Round, Round] same_parent_system)) 0) = 0 \<and>
   m_central_queue (the (run [Submit 0, Round, Round, Round, Round] same_parent_system)) = Some 0 \<and>
   run [Submit 0, Round, Round, Round, Round, Round] same_parent_system \<noteq> None \<and>
   m_coro (jobs (the (run [Submit 0, Round, Round, Round, Round, Round] same_parent_system)) 0) = Done \<and>
   get (the (run [Submit 0, Round, Round, Round, Round, Round] same_parent_system)) 0 = 10 \<and>
   m_children (jobs (the (run [Submit 0, Round, Round, Round, Round, Round] same_parent_system)) 0) = 0 \<and>
   m_children (jobs (the (run [Submit 0, Round, Round, Round, Round, Round] same_parent_system)) 1) = 0"
  by code_simp

text \<open>
  What the decrements do, in any state. A decrement that finds the counter at 1 or
  more leaves it at 0 or more, and \<open>child_finished(J)\<close> goes on to
  \<open>on_finished(J)\<close> exactly when the decrement reaches 0. \<open>Job::operator()\<close>
  resets the counter to 1 before the body and the body only adds to it, so the
  decrement at the end of the body finds it at 1 or more. A \<open>child_finished(J)\<close>
  that finds the counter at 0 takes it to -1 and does not run \<open>on_finished(J)\<close>.
\<close>

lemma decrement_guarded:
  "(1 \<le> sint (m_children (jobs s J)) \<longrightarrow>
      0 \<le> sint (m_children (jobs (snd (fetch_sub s J)) J)) \<and>
      (m_children (jobs (snd (fetch_sub s J)) J) = 0 \<longleftrightarrow> fst (fetch_sub s J) = 1) \<and>
      child_finished s J =
        (if m_children (jobs (snd (fetch_sub s J)) J) = 0 then on_finished (snd (fetch_sub s J)) J
         else Some (snd (fetch_sub s J)))) \<and>
   (\<forall>s1. resume (upd s J (\<lambda>j. j\<lparr>m_children := 1\<rparr>)) J = Some s1 \<longrightarrow>
      1 \<le> sint (m_children (jobs s1 J))) \<and>
   (m_children (jobs s J) = 0 \<longrightarrow>
      child_finished s J = Some (snd (fetch_sub s J)) \<and>
      sint (m_children (jobs (snd (fetch_sub s J)) J)) = - 1)"
proof (intro conjI impI allI)
  assume "1 \<le> sint (m_children (jobs s J))"
  then show "0 \<le> sint (m_children (jobs (snd (fetch_sub s J)) J))"
    by (simp add: fetch_sub_def sint_dec)
next
  show "(m_children (jobs (snd (fetch_sub s J)) J) = 0) = (fst (fetch_sub s J) = 1)"
    by (simp add: fetch_sub_def)
next
  show "child_finished s J =
        (if m_children (jobs (snd (fetch_sub s J)) J) = 0 then on_finished (snd (fetch_sub s J)) J
         else Some (snd (fetch_sub s J)))"
    by (simp add: child_finished_def fetch_sub_def)
next
  fix s1 assume "resume (upd s J (\<lambda>j. j\<lparr>m_children := 1\<rparr>)) J = Some s1"
  from resume_children[OF this] show "1 \<le> sint (m_children (jobs s1 J))" by auto
next
  assume "m_children (jobs s J) = 0"
  then show "child_finished s J = Some (snd (fetch_sub s J))"
    by (simp add: child_finished_def fetch_sub_def)
next
  assume "m_children (jobs s J) = 0"
  then show "sint (m_children (jobs (snd (fetch_sub s J)) J)) = - 1"
    by (simp add: fetch_sub_def)
qed

subsection \<open>The counters along admissible executions\<close>

text \<open>
  The three ways a resumed body reaches its next suspension: it returns, it awaits a
  coroutine, or it awaits another thread index.
\<close>

lemma coro_run_cases:
  "coro_run s this b = Some s' \<Longrightarrow>
   (\<exists>t. awaited (thread_index s) b = None \<and>
        s' = final_awaiter_await_suspend
               (upd (return_value s this t) this (\<lambda>j. j\<lparr>m_coro := Done\<rparr>)) this) \<or>
   (\<exists>c rest. awaited (thread_index s) b = Some c \<and> size rest < size b \<and>
        schedule_coro (upd s this (\<lambda>j. j\<lparr>m_coro := Suspended rest\<rparr>)) c = Some s') \<or>
   (\<exists>k rest. awaited (thread_index s) b = None \<and> size rest < size b \<and>
        s' = upd (upd s this (\<lambda>j. j\<lparr>m_coro := Suspended rest\<rparr>)) this
               (\<lambda>j. j\<lparr>m_thread_index := k\<rparr>))"
proof (induction s this b rule: coro_run.induct)
  case (1 s this t)
  then show ?case by (auto simp: awaiter_base_await_ready_def)
next
  case (2 s this child rest)
  then show ?case
    by (auto simp: awaitable_coro_await_ready_def awaitable_coro_await_suspend_def)
next
  case (3 s this k rest)
  show ?case
  proof (cases "k = thread_index s")
    case True
    with "3.prems" have r: "coro_run s this rest = Some s'"
      by (simp add: awaitable_resume_on_await_ready_def)
    from True have "awaitable_resume_on_await_ready s k"
      by (simp add: awaitable_resume_on_await_ready_def)
    from "3.IH"[OF this r] consider
        (a) t where "awaited (thread_index s) rest = None"
          "s' = final_awaiter_await_suspend
                  (upd (return_value s this t) this (\<lambda>j. j\<lparr>m_coro := Done\<rparr>)) this"
      | (b) c r' where "awaited (thread_index s) rest = Some c" "size r' < size rest"
          "schedule_coro (upd s this (\<lambda>j. j\<lparr>m_coro := Suspended r'\<rparr>)) c = Some s'"
      | (c) k' r' where "awaited (thread_index s) rest = None" "size r' < size rest"
          "s' = upd (upd s this (\<lambda>j. j\<lparr>m_coro := Suspended r'\<rparr>)) this
                  (\<lambda>j. j\<lparr>m_thread_index := k'\<rparr>)"
      by blast
    then show ?thesis
    proof cases
      case a
      with True show ?thesis by auto
    next
      case b
      with True show ?thesis by (auto intro!: exI[of _ r'])
    next
      case c
      with True show ?thesis by (auto intro!: exI[of _ r'])
    qed
  next
    case False
    with "3.prems" show ?thesis
      by (auto simp: awaitable_resume_on_await_ready_def awaitable_resume_on_await_suspend_def)
  qed
qed


lemma queue_list_cong:
  "(\<And>x. x \<in> set xs \<Longrightarrow> m_next (h' x) = m_next (h x)) \<Longrightarrow>
   queue_list h' p xs = queue_list h p xs"
  by (induction xs arbitrary: p) auto

lemma thread_task_fetch_central:
  assumes "\<forall>q \<in> set (m_local_queues s). q = None" "thread_task_fetch s = Some s2"
  shows "jobs s2 = jobs s" "m_local_queues s2 = m_local_queues s"
    "m_thread_index_tl s2 = m_thread_index_tl s"
    "m_current_job s2 = m_central_queue s"
    "m_central_queue s2 = (case m_central_queue s of None \<Rightarrow> None | Some j \<Rightarrow> m_next (jobs s j))"
proof -
  define i where "i = unat (m_thread_index_tl s)"
  from assms(2) have len: "i < length (m_local_queues s)"
    by (simp add: thread_task_fetch_def i_def Let_def split: if_splits)
  with assms(1) have e: "m_local_queues s ! i = None" by simp
  then have u: "(m_local_queues s)[i := None] = m_local_queues s"
    by (metis list_update_id)
  from assms(2) len e u have s2: "s2 = (case m_central_queue s of
        None \<Rightarrow> s\<lparr>m_local_queues := m_local_queues s, m_central_queue := None, m_current_job := None\<rparr>
      | Some j \<Rightarrow> s\<lparr>m_local_queues := m_local_queues s, m_central_queue := m_next (jobs s j),
                     m_current_job := Some j\<rparr>)"
    by (auto simp: thread_task_fetch_def i_def Let_def pop_empty pop_def pop_cas_def
          split: option.splits)
  show "jobs s2 = jobs s" "m_local_queues s2 = m_local_queues s"
    "m_thread_index_tl s2 = m_thread_index_tl s"
    "m_current_job s2 = m_central_queue s"
    "m_central_queue s2 = (case m_central_queue s of None \<Rightarrow> None | Some j \<Rightarrow> m_next (jobs s j))"
    by (simp_all add: s2 split: option.splits)
qed

lemma protocol_switch:
  "protocol_inv T0 bodies s \<Longrightarrow>
   protocol_inv T0 bodies (s\<lparr>m_thread_index_tl := t, m_current_job := j\<rparr>)"
  by (simp add: protocol_inv_def)

lemma counts_okD:
  assumes "counts_ok bodies h qs"
  shows "m_coro (h J) \<noteq> Destroyed"
    and "m_coro (h J) = Done \<Longrightarrow> J \<notin> set qs"
    and "m_coro (h J) = Done \<Longrightarrow> m_children (h J) = 0"
    and "m_coro (h J) = Suspended b \<Longrightarrow> b = bodies J \<or> size b < size (bodies J)"
    and "m_coro (h J) = Suspended b \<Longrightarrow> J \<in> set qs \<Longrightarrow>
           m_children (h J) = 0 \<or> m_children (h J) = 1"
    and "m_coro (h J) = Suspended b \<Longrightarrow> J \<notin> set qs \<Longrightarrow> m_children (h J) = 1"
  using assms unfolding counts_ok_def by blast+

lemma counts_okI:
  assumes "\<And>J. m_coro (h J) \<noteq> Destroyed"
    and "\<And>J. m_coro (h J) = Done \<Longrightarrow> J \<notin> set qs \<and> m_children (h J) = 0"
    and "\<And>J b. m_coro (h J) = Suspended b \<Longrightarrow>
           (b = bodies J \<or> size b < size (bodies J)) \<and>
           (J \<in> set qs \<longrightarrow> m_children (h J) = 0 \<or> m_children (h J) = 1) \<and>
           (J \<notin> set qs \<longrightarrow> m_children (h J) = 1)"
  shows "counts_ok bodies h qs"
  using assms unfolding counts_ok_def by blast

lemma parents_okD:
  assumes "parents_ok bodies h qs" "m_coro (h c) \<noteq> Done" "m_coro_parent (h c) = Some J"
  shows "waiting bodies h qs J"
    and "m_coro (h c') \<noteq> Done \<Longrightarrow> m_coro_parent (h c') = Some J \<Longrightarrow> c' = c"
  using assms unfolding parents_ok_def by blast+

lemma parents_okI:
  assumes "\<And>c J. m_coro (h c) \<noteq> Done \<Longrightarrow> m_coro_parent (h c) = Some J \<Longrightarrow>
             waiting bodies h qs J"
    and "\<And>c c' J. m_coro (h c) \<noteq> Done \<Longrightarrow> m_coro_parent (h c) = Some J \<Longrightarrow>
             m_coro (h c') \<noteq> Done \<Longrightarrow> m_coro_parent (h c') = Some J \<Longrightarrow> c' = c"
  shows "parents_ok bodies h qs"
  using assms unfolding parents_ok_def by blast

lemma waitingD:
  assumes "waiting bodies h qs J"
  shows "J \<notin> set qs" and "\<exists>b. m_coro (h J) = Suspended b \<and> size b < size (bodies J)"
  using assms unfolding waiting_def by blast+

lemma submit_counts:
  assumes co: "counts_ok bodies h qs"
    and fc: "m_coro (h c) = Suspended (bodies c)" and cq: "c \<notin> set qs"
    and f1: "\<And>J. m_coro (h' J) = m_coro (h J)"
    and f2: "\<And>J. m_children (h' J) = m_children (h J)"
  shows "counts_ok bodies h' (c # qs)"
proof (rule counts_okI)
  fix J
  show "m_coro (h' J) \<noteq> Destroyed"
    using counts_okD(1)[OF co, of J] by (simp add: f1)
next
  fix J
  assume "m_coro (h' J) = Done"
  then have d: "m_coro (h J) = Done" by (simp add: f1)
  with fc have "J \<noteq> c" by auto
  with counts_okD(2,3)[OF co d] show "J \<notin> set (c # qs) \<and> m_children (h' J) = 0"
    by (simp add: f2)
next
  fix J b
  assume "m_coro (h' J) = Suspended b"
  then have d: "m_coro (h J) = Suspended b" by (simp add: f1)
  note D = counts_okD(4,5,6)[OF co d]
  show "(b = bodies J \<or> size b < size (bodies J)) \<and>
        (J \<in> set (c # qs) \<longrightarrow> m_children (h' J) = 0 \<or> m_children (h' J) = 1) \<and>
        (J \<notin> set (c # qs) \<longrightarrow> m_children (h' J) = 1)"
  proof (cases "J = c")
    case True
    with D cq show ?thesis by (simp add: f2)
  next
    case False
    with D show ?thesis by (auto simp: f2)
  qed
qed

lemma submit_parents:
  assumes po: "parents_ok bodies h qs"
    and fc: "m_coro (h c) = Suspended (bodies c)"
    and f1: "\<And>J. m_coro (h' J) = m_coro (h J)"
    and f3: "\<And>J. m_coro_parent (h' J) = (if J = c then None else m_coro_parent (h J))"
  shows "parents_ok bodies h' (c # qs)"
proof (rule parents_okI)
  fix x J
  assume nd: "m_coro (h' x) \<noteq> Done" and par: "m_coro_parent (h' x) = Some J"
  then have xc: "x \<noteq> c" and nd0: "m_coro (h x) \<noteq> Done" and par0: "m_coro_parent (h x) = Some J"
    by (auto simp: f1 f3 split: if_splits)
  from parents_okD(1)[OF po nd0 par0] have w: "waiting bodies h qs J" .
  from waitingD[OF w] fc have "J \<noteq> c" by auto
  with waitingD[OF w] show "waiting bodies h' (c # qs) J"
    by (auto simp: waiting_def f1)
next
  fix x x' J
  assume "m_coro (h' x) \<noteq> Done" "m_coro_parent (h' x) = Some J"
    "m_coro (h' x') \<noteq> Done" "m_coro_parent (h' x') = Some J"
  then have "m_coro (h x) \<noteq> Done" "m_coro_parent (h x) = Some J"
    "m_coro (h x') \<noteq> Done" "m_coro_parent (h x') = Some J"
    by (auto simp: f1 f3 split: if_splits)
  with po show "x' = x" by (blast dest: parents_okD(2))
qed

text \<open>The job \<open>j\<close> taken from the queue awaits another thread index and is queued again.\<close>

lemma hop_counts:
  assumes co: "counts_ok bodies h (j # qs)" and dj: "distinct (j # qs)"
    and fj: "m_coro (h j) = Suspended b" and sz: "size rest < size b"
    and f1: "\<And>J. m_coro (h' J) = (if J = j then Suspended rest else m_coro (h J))"
    and f2: "\<And>J. m_children (h' J) = (if J = j then 0 else m_children (h J))"
  shows "counts_ok bodies h' (j # qs)"
proof (rule counts_okI)
  fix J
  show "m_coro (h' J) \<noteq> Destroyed"
    using counts_okD(1)[OF co, of J] by (simp add: f1)
next
  fix J
  assume "m_coro (h' J) = Done"
  then have jj: "J \<noteq> j" and d: "m_coro (h J) = Done" by (auto simp: f1 split: if_splits)
  with counts_okD(2,3)[OF co d] show "J \<notin> set (j # qs) \<and> m_children (h' J) = 0"
    by (simp add: f2)
next
  fix J b'
  assume a: "m_coro (h' J) = Suspended b'"
  show "(b' = bodies J \<or> size b' < size (bodies J)) \<and>
        (J \<in> set (j # qs) \<longrightarrow> m_children (h' J) = 0 \<or> m_children (h' J) = 1) \<and>
        (J \<notin> set (j # qs) \<longrightarrow> m_children (h' J) = 1)"
  proof (cases "J = j")
    case True
    with a have "b' = rest" by (simp add: f1)
    with counts_okD(4)[OF co fj] sz True show ?thesis by (auto simp: f2)
  next
    case False
    with a have d: "m_coro (h J) = Suspended b'" by (simp add: f1)
    from counts_okD(4,5,6)[OF co d] False show ?thesis by (auto simp: f2)
  qed
qed

lemma hop_parents:
  assumes po: "parents_ok bodies h (j # qs)"
    and fj: "m_coro (h j) = Suspended b"
    and f1: "\<And>J. m_coro (h' J) = (if J = j then Suspended rest else m_coro (h J))"
    and f3: "\<And>J. m_coro_parent (h' J) = m_coro_parent (h J)"
  shows "parents_ok bodies h' (j # qs)"
proof -
  have nd: "m_coro (h' x) \<noteq> Done \<longleftrightarrow> m_coro (h x) \<noteq> Done" for x
    using fj by (simp add: f1)
  show ?thesis
  proof (rule parents_okI)
    fix x J
    assume "m_coro (h' x) \<noteq> Done" "m_coro_parent (h' x) = Some J"
    then have nd0: "m_coro (h x) \<noteq> Done" and par0: "m_coro_parent (h x) = Some J"
      by (simp_all add: nd f3)
    from parents_okD(1)[OF po nd0 par0] have w: "waiting bodies h (j # qs) J" .
    from waitingD(1)[OF w] have "J \<noteq> j" by auto
    with waitingD[OF w] show "waiting bodies h' (j # qs) J"
      by (auto simp: waiting_def f1)
  next
    fix x x' J
    assume "m_coro (h' x) \<noteq> Done" "m_coro_parent (h' x) = Some J"
      "m_coro (h' x') \<noteq> Done" "m_coro_parent (h' x') = Some J"
    then have "m_coro (h x) \<noteq> Done" "m_coro_parent (h x) = Some J"
      "m_coro (h x') \<noteq> Done" "m_coro_parent (h x') = Some J"
      by (simp_all add: nd f3)
    with po show "x' = x" by (blast dest: parents_okD(2))
  qed
qed


text \<open>The job \<open>j\<close> taken from the queue awaits the coroutine \<open>c\<close>, never scheduled before.\<close>

lemma await_counts:
  assumes co: "counts_ok bodies h (j # qs)" and dj: "distinct (j # qs)"
    and fj: "m_coro (h j) = Suspended b" and sz: "size rest < size b"
    and fc: "m_coro (h c) = Suspended (bodies c)" and cq: "c \<notin> set (j # qs)"
    and f1: "\<And>J. m_coro (h' J) = (if J = j then Suspended rest else m_coro (h J))"
    and f2: "\<And>J. m_children (h' J) = (if J = j then 1 else m_children (h J))"
  shows "counts_ok bodies h' (c # qs)"
proof (rule counts_okI)
  fix J
  show "m_coro (h' J) \<noteq> Destroyed"
    using counts_okD(1)[OF co, of J] by (simp add: f1)
next
  fix J
  assume "m_coro (h' J) = Done"
  then have jj: "J \<noteq> j" and d: "m_coro (h J) = Done" by (auto simp: f1 split: if_splits)
  from d fc have "J \<noteq> c" by auto
  with jj counts_okD(2,3)[OF co d] show "J \<notin> set (c # qs) \<and> m_children (h' J) = 0"
    by (simp add: f2)
next
  fix J b'
  assume a: "m_coro (h' J) = Suspended b'"
  show "(b' = bodies J \<or> size b' < size (bodies J)) \<and>
        (J \<in> set (c # qs) \<longrightarrow> m_children (h' J) = 0 \<or> m_children (h' J) = 1) \<and>
        (J \<notin> set (c # qs) \<longrightarrow> m_children (h' J) = 1)"
  proof (cases "J = j")
    case True
    with a have "b' = rest" by (simp add: f1)
    with counts_okD(4)[OF co fj] sz True show ?thesis by (auto simp: f2)
  next
    case False
    with a have d: "m_coro (h J) = Suspended b'" by (simp add: f1)
    note D = counts_okD(4,5,6)[OF co d]
    show ?thesis
    proof (cases "J = c")
      case True
      with D cq False show ?thesis by (simp add: f2)
    next
      case nc: False
      with D False show ?thesis by (auto simp: f2)
    qed
  qed
qed

lemma await_parents:
  assumes co: "counts_ok bodies h (j # qs)" and po: "parents_ok bodies h (j # qs)"
    and dj: "distinct (j # qs)"
    and fj: "m_coro (h j) = Suspended b" and sz: "size rest < size b"
    and fc: "m_coro (h c) = Suspended (bodies c)" and cq: "c \<notin> set (j # qs)"
    and f1: "\<And>J. m_coro (h' J) = (if J = j then Suspended rest else m_coro (h J))"
    and f3: "\<And>J. m_coro_parent (h' J) = (if J = c then Some j else m_coro_parent (h J))"
  shows "parents_ok bodies h' (c # qs)"
proof -
  have nd: "m_coro (h' x) \<noteq> Done \<longleftrightarrow> m_coro (h x) \<noteq> Done" for x
    using fj by (simp add: f1)
  have wj: "waiting bodies h' (c # qs) j"
    using counts_okD(4)[OF co fj] sz dj cq by (auto simp: waiting_def f1)
  have old: "waiting bodies h (j # qs) J \<and> J \<noteq> j"
    if "x \<noteq> c" "m_coro (h' x) \<noteq> Done" "m_coro_parent (h' x) = Some J" for x J
  proof -
    from that have nd0: "m_coro (h x) \<noteq> Done" and par0: "m_coro_parent (h x) = Some J"
      by (simp_all add: nd f3)
    from parents_okD(1)[OF po nd0 par0] have w: "waiting bodies h (j # qs) J" .
    with waitingD(1)[OF w] show ?thesis by auto
  qed
  show ?thesis
  proof (rule parents_okI)
    fix x J
    assume a: "m_coro (h' x) \<noteq> Done" "m_coro_parent (h' x) = Some J"
    show "waiting bodies h' (c # qs) J"
    proof (cases "x = c")
      case True
      with a have "J = j" by (simp add: f3)
      with wj show ?thesis by simp
    next
      case False
      from old[OF False a] have w: "waiting bodies h (j # qs) J" and jj: "J \<noteq> j" by simp_all
      from waitingD[OF w] fc have "J \<noteq> c" by auto
      with waitingD[OF w] jj show ?thesis by (auto simp: waiting_def f1)
    qed
  next
    fix x x' J
    assume a: "m_coro (h' x) \<noteq> Done" "m_coro_parent (h' x) = Some J"
      and a': "m_coro (h' x') \<noteq> Done" "m_coro_parent (h' x') = Some J"
    show "x' = x"
    proof (cases "J = j")
      case True
      have "y = c" if "m_coro (h' y) \<noteq> Done" "m_coro_parent (h' y) = Some j" for y
      proof (rule ccontr)
        assume "y \<noteq> c"
        from old[OF this that] show False by simp
      qed
      with a a' True show ?thesis by blast
    next
      case False
      with a a' have xc: "x \<noteq> c" "x' \<noteq> c" by (auto simp: f3)
      with a a' have "m_coro (h x) \<noteq> Done" "m_coro_parent (h x) = Some J"
        "m_coro (h x') \<noteq> Done" "m_coro_parent (h x') = Some J"
        by (simp_all add: nd f3)
      with po show ?thesis by (blast dest: parents_okD(2))
    qed
  qed
qed

text \<open>The job \<open>j\<close> taken from the queue returns; a parent \<open>P\<close> is queued again.\<close>

lemma return_orphan_counts:
  assumes co: "counts_ok bodies h (j # qs)" and dj: "distinct (j # qs)"
    and f1: "\<And>J. m_coro (h' J) = (if J = j then Done else m_coro (h J))"
    and f2: "\<And>J. m_children (h' J) = (if J = j then 0 else m_children (h J))"
  shows "counts_ok bodies h' qs"
proof (rule counts_okI)
  fix J
  show "m_coro (h' J) \<noteq> Destroyed"
    using counts_okD(1)[OF co, of J] by (simp add: f1)
next
  fix J
  assume a: "m_coro (h' J) = Done"
  show "J \<notin> set qs \<and> m_children (h' J) = 0"
  proof (cases "J = j")
    case True
    with dj show ?thesis by (simp add: f2)
  next
    case False
    with a have d: "m_coro (h J) = Done" by (simp add: f1)
    with counts_okD(2,3)[OF co d] False show ?thesis by (simp add: f2)
  qed
next
  fix J b'
  assume a: "m_coro (h' J) = Suspended b'"
  then have jj: "J \<noteq> j" and d: "m_coro (h J) = Suspended b'"
    by (auto simp: f1 split: if_splits)
  from counts_okD(4,5,6)[OF co d] jj
  show "(b' = bodies J \<or> size b' < size (bodies J)) \<and>
      (J \<in> set qs \<longrightarrow> m_children (h' J) = 0 \<or> m_children (h' J) = 1) \<and>
      (J \<notin> set qs \<longrightarrow> m_children (h' J) = 1)"
    by (auto simp: f2)
qed

lemma return_parent_counts:
  assumes co: "counts_ok bodies h (j # qs)" and dj: "distinct (j # qs)"
    and wP: "waiting bodies h (j # qs) P"
    and f1: "\<And>J. m_coro (h' J) = (if J = j then Done else m_coro (h J))"
    and f2: "\<And>J. m_children (h' J) = (if J = j \<or> J = P then 0 else m_children (h J))"
  shows "counts_ok bodies h' (P # qs)"
proof -
  from waitingD[OF wP] obtain bP where Pj: "P \<noteq> j" and Pq: "P \<notin> set qs"
    and fP: "m_coro (h P) = Suspended bP"
    by auto
  show ?thesis
  proof (rule counts_okI)
    fix J
    show "m_coro (h' J) \<noteq> Destroyed"
      using counts_okD(1)[OF co, of J] by (simp add: f1)
  next
    fix J
    assume a: "m_coro (h' J) = Done"
    show "J \<notin> set (P # qs) \<and> m_children (h' J) = 0"
    proof (cases "J = j")
      case True
      with dj Pj show ?thesis by (simp add: f2)
    next
      case False
      with a have d: "m_coro (h J) = Done" by (simp add: f1)
      with fP have "J \<noteq> P" by auto
      with counts_okD(2,3)[OF co d] False show ?thesis by (simp add: f2)
    qed
  next
    fix J b'
    assume a: "m_coro (h' J) = Suspended b'"
    then have jj: "J \<noteq> j" and d: "m_coro (h J) = Suspended b'"
      by (auto simp: f1 split: if_splits)
    from counts_okD(4,5,6)[OF co d] jj
    show "(b' = bodies J \<or> size b' < size (bodies J)) \<and>
        (J \<in> set (P # qs) \<longrightarrow> m_children (h' J) = 0 \<or> m_children (h' J) = 1) \<and>
        (J \<notin> set (P # qs) \<longrightarrow> m_children (h' J) = 1)"
      by (auto simp: f2)
  qed
qed

lemma return_orphan_parents:
  assumes po: "parents_ok bodies h (j # qs)"
    and f1: "\<And>J. m_coro (h' J) = (if J = j then Done else m_coro (h J))"
    and f3: "\<And>J. m_coro_parent (h' J) = m_coro_parent (h J)"
  shows "parents_ok bodies h' qs"
proof -
  have nd: "m_coro (h x) \<noteq> Done \<and> x \<noteq> j" if "m_coro (h' x) \<noteq> Done" for x
    using that by (auto simp: f1 split: if_splits)
  show ?thesis
  proof (rule parents_okI)
    fix x J
    assume a: "m_coro (h' x) \<noteq> Done" "m_coro_parent (h' x) = Some J"
    from nd[OF a(1)] a(2) have nd0: "m_coro (h x) \<noteq> Done" and par0: "m_coro_parent (h x) = Some J"
      by (simp_all add: f3)
    from parents_okD(1)[OF po nd0 par0] have w: "waiting bodies h (j # qs) J" .
    from waitingD(1)[OF w] have "J \<noteq> j" by auto
    with waitingD[OF w] show "waiting bodies h' qs J"
      by (auto simp: waiting_def f1)
  next
    fix x x' J
    assume a: "m_coro (h' x) \<noteq> Done" "m_coro_parent (h' x) = Some J"
      and a': "m_coro (h' x') \<noteq> Done" "m_coro_parent (h' x') = Some J"
    from nd[OF a(1)] nd[OF a'(1)] a(2) a'(2)
    have "m_coro (h x) \<noteq> Done" "m_coro_parent (h x) = Some J"
      "m_coro (h x') \<noteq> Done" "m_coro_parent (h x') = Some J"
      by (simp_all add: f3)
    with po show "x' = x" by (blast dest: parents_okD(2))
  qed
qed

lemma return_parent_parents:
  assumes po: "parents_ok bodies h (j # qs)"
    and ndj: "m_coro (h j) \<noteq> Done" and pj: "m_coro_parent (h j) = Some P"
    and f1: "\<And>J. m_coro (h' J) = (if J = j then Done else m_coro (h J))"
    and f3: "\<And>J. m_coro_parent (h' J) = m_coro_parent (h J)"
  shows "parents_ok bodies h' (P # qs)"
proof -
  have nd: "m_coro (h x) \<noteq> Done \<and> x \<noteq> j" if "m_coro (h' x) \<noteq> Done" for x
    using that by (auto simp: f1 split: if_splits)
  show ?thesis
  proof (rule parents_okI)
    fix x J
    assume a: "m_coro (h' x) \<noteq> Done" "m_coro_parent (h' x) = Some J"
    from nd[OF a(1)] a(2) have nd0: "m_coro (h x) \<noteq> Done" and par0: "m_coro_parent (h x) = Some J"
      and xj: "x \<noteq> j"
      by (simp_all add: f3)
    from parents_okD(1)[OF po nd0 par0] have w: "waiting bodies h (j # qs) J" .
    from waitingD(1)[OF w] have Jj: "J \<noteq> j" by auto
    have "J \<noteq> P"
    proof
      assume "J = P"
      with parents_okD(2)[OF po ndj pj nd0] par0 have "x = j" by simp
      with xj show False by simp
    qed
    with waitingD[OF w] Jj show "waiting bodies h' (P # qs) J"
      by (auto simp: waiting_def f1)
  next
    fix x x' J
    assume a: "m_coro (h' x) \<noteq> Done" "m_coro_parent (h' x) = Some J"
      and a': "m_coro (h' x') \<noteq> Done" "m_coro_parent (h' x') = Some J"
    from nd[OF a(1)] nd[OF a'(1)] a(2) a'(2)
    have "m_coro (h x) \<noteq> Done" "m_coro_parent (h x) = Some J"
      "m_coro (h x') \<noteq> Done" "m_coro_parent (h x') = Some J"
      by (simp_all add: f3)
    with po show "x' = x" by (blast dest: parents_okD(2))
  qed
qed

lemma protocol_invI:
  assumes "promise_inv T0 (\<lambda>a. result_of (bodies a)) (jobs s)"
    and "\<forall>q \<in> set (m_local_queues s). q = None"
    and "queue_list (jobs s) (m_central_queue s) qs"
    and "counts_ok bodies (jobs s) qs" and "parents_ok bodies (jobs s) qs"
  shows "protocol_inv T0 bodies s"
  using assms unfolding protocol_inv_def by blast

lemma protocol_submit:
  assumes inv: "protocol_inv T0 bodies s"
    and adm: "m_current_job s = None" "unscheduled bodies s c"
    and r: "schedule_coro s c = Some s'"
  shows "protocol_inv T0 bodies s'"
proof -
  from inv obtain qs where q: "queue_list (jobs s) (m_central_queue s) qs"
    and co: "counts_ok bodies (jobs s) qs" and po: "parents_ok bodies (jobs s) qs"
    and pinv: "promise_inv T0 (\<lambda>a. result_of (bodies a)) (jobs s)"
    and lq: "\<forall>q \<in> set (m_local_queues s). q = None"
    unfolding protocol_inv_def by blast
  from adm(2) obtain qs0 where "queue_list (jobs s) (m_central_queue s) qs0" "c \<notin> set qs0"
    and fc: "m_coro (jobs s c) = Suspended (bodies c)"
    unfolding unscheduled_def by blast
  with q have cq: "c \<notin> set qs" by (auto dest: queue_list_unique)
  define s1 where "s1 = upd s c (\<lambda>j. j\<lparr>m_coro_parent := None\<rparr>)"
  from r adm(1) have s': "s' = s1\<lparr>jobs := (jobs s1)(c := (jobs s1 c)\<lparr>m_next := m_central_queue s1\<rparr>),
                              m_central_queue := Some c\<rparr>"
    by (simp add: schedule_coro_eq schedule_default s1_def)
  have f1: "m_coro (jobs s' J) = m_coro (jobs s J)" for J
    by (simp add: s' s1_def)
  have f2: "m_children (jobs s' J) = m_children (jobs s J)" for J
    by (simp add: s' s1_def)
  have f3: "m_coro_parent (jobs s' J) = (if J = c then None else m_coro_parent (jobs s J))" for J
    by (simp add: s' s1_def)
  have f4: "m_next (jobs s' J) = (if J = c then m_central_queue s else m_next (jobs s J))" for J
    by (simp add: s' s1_def)
  have pinv': "promise_inv T0 (\<lambda>a. result_of (bodies a)) (jobs s')"
    using schedule_coro_pcore[OF r] pinv by (rule promise_inv_pcore)
  have lq': "\<forall>q \<in> set (m_local_queues s'). q = None"
    using lq by (simp add: s' s1_def)
  have "queue_list (jobs s') (m_central_queue s) qs = queue_list (jobs s) (m_central_queue s) qs"
    using cq by (intro queue_list_cong) (auto simp: f4)
  with q have q': "queue_list (jobs s') (m_central_queue s') (c # qs)"
    by (simp add: f4) (simp add: s')
  from pinv' lq' q' submit_counts[OF co fc cq f1 f2] submit_parents[OF po fc f1 f3]
  show ?thesis by (rule protocol_invI)
qed


lemma promise_okD:
  assumes "promise_inv T0 res h" "m_coro (h J) = Suspended b"
  shows "m_continuation (h J) = Some J" "m_parent (h J) = None"
proof -
  from assms(1) have "promise_ok T0 (res J) J (h J)"
    unfolding promise_inv_def by (rule spec)
  with assms(2) show "m_continuation (h J) = Some J" "m_parent (h J) = None"
    by (simp_all add: promise_ok_def)
qed

lemma protocol_round:
  assumes inv: "protocol_inv T0 bodies s"
    and adm: "admissible bodies s Round"
    and r: "thread_task_round s = Some s'"
  shows "protocol_inv T0 bodies s'"
proof -
  from inv obtain qs where q: "queue_list (jobs s) (m_central_queue s) qs"
    and co: "counts_ok bodies (jobs s) qs" and po: "parents_ok bodies (jobs s) qs"
    and pinv: "promise_inv T0 (\<lambda>a. result_of (bodies a)) (jobs s)"
    and lq: "\<forall>q \<in> set (m_local_queues s). q = None"
    unfolding protocol_inv_def by blast
  have pinv': "promise_inv T0 (\<lambda>a. result_of (bodies a)) (jobs s')"
    using r pinv by (rule thread_task_round_inv)
  from r obtain s2 where f: "thread_task_fetch s = Some s2"
    by (auto simp: thread_task_round_def split: option.splits)
  note s2 = thread_task_fetch_central[OF lq f]
  show ?thesis
  proof (cases "m_central_queue s")
    case None
    with r f s2 have "s' = s2" by (simp add: thread_task_round_def)
    with s2 None q co po pinv lq show ?thesis
      by (intro protocol_invI[where qs = qs]) simp_all
  next
    case (Some j)
    with q obtain qs' where qs: "qs = j # qs'" by (cases qs) auto
    from q have dj: "distinct (j # qs')" unfolding qs by (rule queue_list_distinct)
    from q Some qs have qt: "queue_list (jobs s) (m_next (jobs s j)) qs'" by simp
    from r f s2 Some have call: "Job_call s2 j = Some s'"
      by (simp add: thread_task_round_def)
    from counts_okD(1,2)[OF co, of j] qs obtain b where fj: "m_coro (jobs s j) = Suspended b"
      by (cases "m_coro (jobs s j)") auto
    define sB where "sB = upd (upd s2 j (\<lambda>j. j\<lparr>m_children := 1\<rparr>)) j (\<lambda>j. j\<lparr>m_children := 1\<rparr>)"
    have sBj: "jobs sB J = (if J = j then (jobs s j)\<lparr>m_children := 1\<rparr> else jobs s J)" for J
      by (simp add: sB_def s2)
    have sBf: "m_current_job sB = Some j" "m_central_queue sB = m_next (jobs s j)"
      "m_local_queues sB = m_local_queues s" "thread_index sB = thread_index s"
      by (simp_all add: sB_def s2 Some thread_index_def)
    from call fj obtain s1 where run: "coro_run sB j b = Some s1"
      and fin: "(if fst (fetch_sub s1 j) = 1 then on_finished (snd (fetch_sub s1 j)) j
                 else Some (snd (fetch_sub s1 j))) = Some s'"
      by (auto simp: Job_call_def resume_def sB_def s2 split: option.splits)
    from coro_run_cases[OF run] sBf(4) consider
        (ret) t where "s1 = final_awaiter_await_suspend
               (upd (return_value sB j t) j (\<lambda>j. j\<lparr>m_coro := Done\<rparr>)) j"
      | (await) c rest where "awaited (thread_index s) b = Some c" "size rest < size b"
          "schedule_coro (upd sB j (\<lambda>j. j\<lparr>m_coro := Suspended rest\<rparr>)) c = Some s1"
      | (hop) k rest where "size rest < size b"
          "s1 = upd (upd sB j (\<lambda>j. j\<lparr>m_coro := Suspended rest\<rparr>)) j (\<lambda>j. j\<lparr>m_thread_index := k\<rparr>)"
      by auto
    then show ?thesis
    proof cases
      case hop
      define sD where "sD = snd (fetch_sub s1 j)"
      have one: "fst (fetch_sub s1 j) = 1"
        by (simp add: fetch_sub_def hop(2) sBj)
      have sDj: "jobs sD J = (if J = j then (jobs s j)\<lparr>m_children := 0, m_coro := Suspended rest,
                     m_thread_index := k\<rparr> else jobs s J)" for J
        by (simp add: sD_def fetch_sub_def hop(2) sBj)
      have sDf: "m_central_queue sD = m_next (jobs s j)" "m_local_queues sD = m_local_queues s"
        by (simp_all add: sD_def fetch_sub_def hop(2) sBf)
      from promise_okD[OF pinv fj]
      have "m_continuation (jobs sD j) = Some j" "m_parent (jobs sD j) = None"
        by (simp_all add: sDj)
      from on_finished_own_continuation[OF this] fin one
      have s': "s' = sD\<lparr>jobs := (jobs sD)(j := (jobs sD j)\<lparr>m_next := m_central_queue sD\<rparr>),
                        m_central_queue := Some j\<rparr>"
        by (simp add: sD_def)
      have f1: "m_coro (jobs s' J) = (if J = j then Suspended rest else m_coro (jobs s J))" for J
        by (simp add: s' sDj)
      have f2: "m_children (jobs s' J) = (if J = j then 0 else m_children (jobs s J))" for J
        by (simp add: s' sDj)
      have f3: "m_coro_parent (jobs s' J) = m_coro_parent (jobs s J)" for J
        by (simp add: s' sDj)
      have f4: "m_next (jobs s' J) = m_next (jobs s J)" for J
        by (simp add: s' sDj sDf)
      have "queue_list (jobs s') (Some j) (j # qs') = queue_list (jobs s) (Some j) (j # qs')"
        by (intro queue_list_cong) (simp add: f4)
      with q Some qs have q': "queue_list (jobs s') (m_central_queue s') (j # qs')"
        by (simp add: s')
      have lq': "\<forall>q \<in> set (m_local_queues s'). q = None"
        using lq by (simp add: s' sDf)
      from pinv' lq' q' hop_counts[OF co[unfolded qs] dj fj hop(1) f1 f2]
        hop_parents[OF po[unfolded qs] fj f1 f3]
      show ?thesis by (rule protocol_invI)
    next
      case await
      from adm Some fj await(1) have "unscheduled bodies s c"
        by (simp add: admissible_def)
      then obtain qs0 where q0: "queue_list (jobs s) (m_central_queue s) qs0"
        and nq0: "c \<notin> set qs0"
        and fc: "m_coro (jobs s c) = Suspended (bodies c)"
        unfolding unscheduled_def by blast
      from queue_list_unique[OF q0 q] nq0 qs have cq: "c \<notin> set (j # qs')" by simp
      then have cj: "c \<noteq> j" by simp
      define sC where "sC = upd (upd (upd sB j (\<lambda>j. j\<lparr>m_coro := Suspended rest\<rparr>)) j
                                (\<lambda>j. j\<lparr>m_children := m_children j + 1\<rparr>)) c
                              (\<lambda>x. x\<lparr>m_coro_parent := Some j\<rparr>)"
      from await(3) have s1: "s1 = sC\<lparr>jobs := (jobs sC)(c := (jobs sC c)\<lparr>m_next := m_central_queue sC\<rparr>),
                                    m_central_queue := Some c\<rparr>"
        by (simp add: schedule_coro_eq schedule_default sBf sC_def)
      have sCj: "jobs sC J = (if J = c then (jobs s c)\<lparr>m_coro_parent := Some j\<rparr>
                   else if J = j then (jobs s j)\<lparr>m_children := 2, m_coro := Suspended rest\<rparr>
                   else jobs s J)" for J
        using cj by (simp add: sC_def sBj)
      have sCf: "m_central_queue sC = m_next (jobs s j)" "m_local_queues sC = m_local_queues s"
        by (simp_all add: sC_def sBf)
      have two: "fst (fetch_sub s1 j) \<noteq> 1"
        using cj by (simp add: fetch_sub_def s1 sCj)
      with fin have s': "s' = snd (fetch_sub s1 j)" by simp
      have f1: "m_coro (jobs s' J) = (if J = j then Suspended rest else m_coro (jobs s J))" for J
        using cj by (simp add: s' fetch_sub_def s1 sCj)
      have f2: "m_children (jobs s' J) = (if J = j then 1 else m_children (jobs s J))" for J
        using cj by (simp add: s' fetch_sub_def s1 sCj)
      have f3: "m_coro_parent (jobs s' J) = (if J = c then Some j else m_coro_parent (jobs s J))" for J
        using cj by (simp add: s' fetch_sub_def s1 sCj)
      have f4: "m_next (jobs s' J) = (if J = c then m_next (jobs s j) else m_next (jobs s J))" for J
        using cj by (simp add: s' fetch_sub_def s1 sCj sCf)
      have "queue_list (jobs s') (m_next (jobs s j)) qs' = queue_list (jobs s) (m_next (jobs s j)) qs'"
        using cq by (intro queue_list_cong) (auto simp: f4)
      with qt have q': "queue_list (jobs s') (m_central_queue s') (c # qs')"
        by (simp add: f4) (simp add: s' fetch_sub_def s1)
      have lq': "\<forall>q \<in> set (m_local_queues s'). q = None"
        using lq by (simp add: s' fetch_sub_def s1 sCf)
      from pinv' lq' q' await_counts[OF co[unfolded qs] dj fj await(2) fc cq f1 f2]
        await_parents[OF co[unfolded qs] po[unfolded qs] dj fj await(2) fc cq f1 f3]
      show ?thesis by (rule protocol_invI)
    next
      case ret
      define sD where "sD = snd (fetch_sub s1 j)"
      have one: "fst (fetch_sub s1 j) = 1"
        by (simp add: fetch_sub_def ret final_awaiter_await_suspend_def return_value_def sBj)
      have sDj: "jobs sD J = (if J = j then (jobs s j)\<lparr>m_children := 0, m_value := t,
                     m_coro := Done, m_parent := m_coro_parent (jobs s j),
                     m_continuation := None\<rparr> else jobs s J)" for J
        by (simp add: sD_def fetch_sub_def ret final_awaiter_await_suspend_def return_value_def sBj)
      have sDf: "m_central_queue sD = m_next (jobs s j)" "m_local_queues sD = m_local_queues s"
        by (simp_all add: sD_def fetch_sub_def ret final_awaiter_await_suspend_def
            return_value_def sBf)
      from fin one have of: "on_finished sD j = Some s'" by (simp add: sD_def)
      have oc: "on_finished_continuation sD j = Some sD"
        by (simp add: on_finished_continuation_def sDj)
      show ?thesis
      proof (cases "m_coro_parent (jobs s j)")
        case None
        with of oc have s': "s' = sD"
          by (simp add: on_finished_child_finished sDj)
        have f1: "m_coro (jobs s' J) = (if J = j then Done else m_coro (jobs s J))" for J
          by (simp add: s' sDj)
        have f2: "m_children (jobs s' J) = (if J = j then 0 else m_children (jobs s J))" for J
          by (simp add: s' sDj)
        have f3: "m_coro_parent (jobs s' J) = m_coro_parent (jobs s J)" for J
          by (simp add: s' sDj)
        have f4: "m_next (jobs s' J) = m_next (jobs s J)" for J
          by (simp add: s' sDj)
        have "queue_list (jobs s') (m_next (jobs s j)) qs' = queue_list (jobs s) (m_next (jobs s j)) qs'"
          by (intro queue_list_cong) (simp add: f4)
        with qt have q': "queue_list (jobs s') (m_central_queue s') qs'"
          by (simp add: s' sDf)
        have lq': "\<forall>q \<in> set (m_local_queues s'). q = None"
          using lq by (simp add: s' sDf)
        from pinv' lq' q' return_orphan_counts[OF co[unfolded qs] dj f1 f2]
          return_orphan_parents[OF po[unfolded qs] f1 f3]
        show ?thesis by (rule protocol_invI)
      next
        case (Some P)
        from fj have ndj: "m_coro (jobs s j) \<noteq> Done" by simp
        from parents_okD(1)[OF po[unfolded qs] ndj Some]
        have wP: "waiting bodies (jobs s) (j # qs') P" .
        from waitingD[OF wP] obtain bP where Pj: "P \<noteq> j" and Pq: "P \<notin> set qs'"
          and fP: "m_coro (jobs s P) = Suspended bP"
          by auto
        from counts_okD(6)[OF co[unfolded qs] fP] Pj Pq have cP: "m_children (jobs s P) = 1"
          by simp
        define sE where "sE = snd (fetch_sub sD P)"
        have oneP: "fst (fetch_sub sD P) = 1"
          using Pj cP by (simp add: fetch_sub_def sDj)
        have sEj: "jobs sE J = (if J = P then (jobs s P)\<lparr>m_children := 0\<rparr> else jobs sD J)" for J
          using Pj cP by (simp add: sE_def fetch_sub_def sDj)
        have sEf: "m_central_queue sE = m_next (jobs s j)" "m_local_queues sE = m_local_queues s"
          by (simp_all add: sE_def fetch_sub_def sDf)
        from of oc Some oneP have ofP: "on_finished sE P = Some s'"
          by (simp add: on_finished_child_finished sDj child_finished_def sE_def)
        from promise_okD[OF pinv fP]
        have "m_continuation (jobs sE P) = Some P" "m_parent (jobs sE P) = None"
          by (simp_all add: sEj)
        from on_finished_own_continuation[OF this] ofP
        have s': "s' = sE\<lparr>jobs := (jobs sE)(P := (jobs sE P)\<lparr>m_next := m_central_queue sE\<rparr>),
                          m_central_queue := Some P\<rparr>"
          by simp
        have f1: "m_coro (jobs s' J) = (if J = j then Done else m_coro (jobs s J))" for J
          using Pj by (simp add: s' sEj sDj)
        have f2: "m_children (jobs s' J) = (if J = j \<or> J = P then 0 else m_children (jobs s J))" for J
          using Pj by (simp add: s' sEj sDj)
        have f3: "m_coro_parent (jobs s' J) = m_coro_parent (jobs s J)" for J
          using Pj by (simp add: s' sEj sDj)
        have f4: "m_next (jobs s' J) = (if J = P then m_next (jobs s j) else m_next (jobs s J))" for J
          using Pj by (simp add: s' sEj sDj sEf)
        have "queue_list (jobs s') (m_next (jobs s j)) qs' = queue_list (jobs s) (m_next (jobs s j)) qs'"
          using Pq by (intro queue_list_cong) (auto simp: f4)
        with qt have q': "queue_list (jobs s') (m_central_queue s') (P # qs')"
          by (simp add: f4) (simp add: s')
        have lq': "\<forall>q \<in> set (m_local_queues s'). q = None"
          using lq by (simp add: s' sEf)
        from pinv' lq' q' return_parent_counts[OF co[unfolded qs] dj wP f1 f2]
          return_parent_parents[OF po[unfolded qs] ndj Some f1 f3]
        show ?thesis by (rule protocol_invI)
      qed
    qed
  qed
qed

lemma protocol_exec:
  assumes "protocol_inv T0 bodies s" "admissible bodies s e" "exec e s = Some s'"
  shows "protocol_inv T0 bodies s'"
proof (cases e)
  case Round
  with assms show ?thesis by (auto intro: protocol_round)
next
  case (Submit c)
  with assms show ?thesis by (auto simp: admissible_def intro: protocol_submit)
next
  case (Switch t j)
  with assms show ?thesis by (auto intro: protocol_switch)
qed

lemma protocol_run:
  "protocol_inv T0 bodies s \<Longrightarrow> admissible_run bodies es s \<Longrightarrow> run es s = Some s' \<Longrightarrow>
   protocol_inv T0 bodies s'"
proof (induction es arbitrary: s)
  case Nil
  then show ?case by simp
next
  case (Cons e es)
  from Cons.prems(3) obtain s1 where e: "exec e s = Some s1" and r: "run es s1 = Some s'"
    by (auto split: option.splits)
  from Cons.prems(2) e have a: "admissible bodies s e" and ar: "admissible_run bodies es s1"
    by simp_all
  from Cons.IH[OF protocol_exec[OF Cons.prems(1) a e] ar r] show ?case .
qed

lemma protocol_init:
  "protocol_inv T0 bodies (JobSystem n hw (\<lambda>a. Coro_promise T0 a (bodies a)))"
proof (rule protocol_invI[where qs = "[]"])
  show "promise_inv T0 (\<lambda>a. result_of (bodies a))
          (jobs (JobSystem n hw (\<lambda>a. Coro_promise T0 a (bodies a))))"
    by (rule fresh_inv) (simp add: JobSystem_def Let_def)
  show "\<forall>q \<in> set (m_local_queues (JobSystem n hw (\<lambda>a. Coro_promise T0 a (bodies a)))). q = None"
    by (simp add: JobSystem_def Let_def)
  show "queue_list (jobs (JobSystem n hw (\<lambda>a. Coro_promise T0 a (bodies a))))
          (m_central_queue (JobSystem n hw (\<lambda>a. Coro_promise T0 a (bodies a)))) []"
    by (simp add: JobSystem_def Let_def)
  show "counts_ok bodies (jobs (JobSystem n hw (\<lambda>a. Coro_promise T0 a (bodies a)))) []"
    by (simp add: counts_ok_def JobSystem_def Let_def Coro_promise_def)
  show "parents_ok bodies (jobs (JobSystem n hw (\<lambda>a. Coro_promise T0 a (bodies a)))) []"
    by (simp add: parents_ok_def JobSystem_def Let_def Coro_promise_def)
qed

text \<open>
  Rounds return: under the invariant the walk that \<open>on_finished\<close> and
  \<open>child_finished\<close> make up the chain of parents stops after at most one parent,
  whose continuation is the parent itself.
\<close>

lemma coro_run_returns: "\<exists>s'. coro_run s this b = Some s'"
proof (induction s this b rule: coro_run.induct)
  case (1 s this t)
  show ?case by (simp add: Let_def)
next
  case (2 s this child rest)
  show ?case
    by (simp add: awaitable_coro_await_ready_def awaitable_coro_await_suspend_def
        schedule_coro_eq schedule_default)
next
  case (3 s this k rest)
  then show ?case by (cases "awaitable_resume_on_await_ready s k") simp_all
qed

lemma thread_task_fetch_returns:
  assumes lq: "\<forall>q \<in> set (m_local_queues s). q = None"
    and idx: "unat (m_thread_index_tl s) < length (m_local_queues s)"
  shows "\<exists>s2. thread_task_fetch s = Some s2"
proof -
  from lq idx have "m_local_queues s ! unat (m_thread_index_tl s) = None" by simp
  with idx show ?thesis
    by (cases "m_central_queue s")
       (simp_all add: thread_task_fetch_def Let_def pop_empty pop_def pop_cas_def)
qed

lemma protocol_round_returns:
  assumes inv: "protocol_inv T0 bodies s"
    and idx: "unat (m_thread_index_tl s) < length (m_local_queues s)"
  shows "\<exists>s'. thread_task_round s = Some s'"
proof -
  from inv obtain qs where q: "queue_list (jobs s) (m_central_queue s) qs"
    and co: "counts_ok bodies (jobs s) qs" and po: "parents_ok bodies (jobs s) qs"
    and pinv: "promise_inv T0 (\<lambda>a. result_of (bodies a)) (jobs s)"
    and lq: "\<forall>q \<in> set (m_local_queues s). q = None"
    unfolding protocol_inv_def by blast
  from thread_task_fetch_returns[OF lq idx] obtain s2 where f: "thread_task_fetch s = Some s2" ..
  note s2 = thread_task_fetch_central[OF lq f]
  show ?thesis
  proof (cases "m_central_queue s")
    case None
    with f s2 show ?thesis by (simp add: thread_task_round_def)
  next
    case (Some j)
    with q obtain qs' where qs: "qs = j # qs'" by (cases qs) auto
    from counts_okD(1,2)[OF co, of j] qs obtain b where fj: "m_coro (jobs s j) = Suspended b"
      by (cases "m_coro (jobs s j)") auto
    define sB where "sB = upd (upd s2 j (\<lambda>j. j\<lparr>m_children := 1\<rparr>)) j (\<lambda>j. j\<lparr>m_children := 1\<rparr>)"
    have sBj: "jobs sB J = (if J = j then (jobs s j)\<lparr>m_children := 1\<rparr> else jobs s J)" for J
      by (simp add: sB_def s2)
    have sBf: "m_current_job sB = Some j" "thread_index sB = thread_index s"
      by (simp_all add: sB_def s2 Some thread_index_def)
    from coro_run_returns obtain s1 where run: "coro_run sB j b = Some s1" by blast
    have call: "Job_call s2 j =
        (if fst (fetch_sub s1 j) = 1 then on_finished (snd (fetch_sub s1 j)) j
         else Some (snd (fetch_sub s1 j)))"
      using fj run by (simp add: Job_call_def resume_def sB_def s2)
    have "\<exists>s'. Job_call s2 j = Some s'"
    proof (cases "fst (fetch_sub s1 j) = 1")
      case False
      with call show ?thesis by simp
    next
      case True
      define sD where "sD = snd (fetch_sub s1 j)"
      from coro_run_cases[OF run] consider
          (ret) t where "s1 = final_awaiter_await_suspend
                 (upd (return_value sB j t) j (\<lambda>j. j\<lparr>m_coro := Done\<rparr>)) j"
        | (await) c rest where
            "schedule_coro (upd sB j (\<lambda>j. j\<lparr>m_coro := Suspended rest\<rparr>)) c = Some s1"
        | (hop) k rest where
            "s1 = upd (upd sB j (\<lambda>j. j\<lparr>m_coro := Suspended rest\<rparr>)) j (\<lambda>j. j\<lparr>m_thread_index := k\<rparr>)"
        by auto
      then have "\<exists>s'. on_finished sD j = Some s'"
      proof cases
        case hop
        from promise_okD[OF pinv fj]
        have "m_continuation (jobs sD j) = Some j" "m_parent (jobs sD j) = None"
          by (simp_all add: sD_def fetch_sub_def hop sBj)
        from on_finished_own_continuation[OF this] show ?thesis by simp
      next
        case await
        from schedule_coro_children_of[OF await, of j]
        have "m_children (jobs s1 j) = 2" by (simp add: sBf sBj)
        with True show ?thesis by (simp add: fetch_sub_def)
      next
        case ret
        have sDj: "jobs sD J = (if J = j then (jobs s j)\<lparr>m_children := 0, m_value := t,
                       m_coro := Done, m_parent := m_coro_parent (jobs s j),
                       m_continuation := None\<rparr> else jobs s J)" for J
          by (simp add: sD_def fetch_sub_def ret final_awaiter_await_suspend_def
              return_value_def sBj)
        have oc: "on_finished_continuation sD j = Some sD"
          by (simp add: on_finished_continuation_def sDj)
        show ?thesis
        proof (cases "m_coro_parent (jobs s j)")
          case None
          with oc show ?thesis by (simp add: on_finished_child_finished sDj)
        next
          case (Some P)
          from fj have ndj: "m_coro (jobs s j) \<noteq> Done" by simp
          from parents_okD(1)[OF po[unfolded qs] ndj Some]
          have wP: "waiting bodies (jobs s) (j # qs') P" .
          from waitingD[OF wP] obtain bP where Pj: "P \<noteq> j"
            and fP: "m_coro (jobs s P) = Suspended bP"
            by auto
          define sE where "sE = snd (fetch_sub sD P)"
          from promise_okD[OF pinv fP] Pj
          have "m_continuation (jobs sE P) = Some P" "m_parent (jobs sE P) = None"
            by (simp_all add: sE_def fetch_sub_def sDj)
          from on_finished_own_continuation[OF this]
          have "\<exists>s'. child_finished sD P = Some s'"
            by (simp add: child_finished_def sE_def)
          with oc Some show ?thesis by (simp add: on_finished_child_finished sDj)
        qed
      qed
      with call True show ?thesis by (simp add: sD_def)
    qed
    with f s2 Some show ?thesis by (simp add: thread_task_round_def)
  qed
qed

lemma admissible_SubmitI:
  "m_current_job s = None \<Longrightarrow> m_coro (jobs s c) = Suspended (bodies c) \<Longrightarrow>
   queue_list (jobs s) (m_central_queue s) qs \<Longrightarrow> c \<notin> set qs \<Longrightarrow>
   admissible bodies s (Submit c)"
  unfolding admissible_def unscheduled_def by auto

lemma admissible_Round_awaitI:
  "m_central_queue s = Some j \<Longrightarrow> m_coro (jobs s j) = Suspended b \<Longrightarrow>
   awaited (thread_index s) b = Some c \<Longrightarrow> m_coro (jobs s c) = Suspended (bodies c) \<Longrightarrow>
   queue_list (jobs s) (m_central_queue s) qs \<Longrightarrow> c \<notin> set qs \<Longrightarrow>
   admissible bodies s Round"
  unfolding admissible_def unscheduled_def by auto

lemma admissible_Round_otherI:
  "m_central_queue s = Some j \<Longrightarrow> m_coro (jobs s j) = Suspended b \<Longrightarrow>
   awaited (thread_index s) b = None \<Longrightarrow> admissible bodies s Round"
  unfolding admissible_def by simp

lemma admissible_run_ConsI:
  "admissible bodies s e \<Longrightarrow> exec e s = Some s' \<Longrightarrow> admissible_run bodies es s' \<Longrightarrow>
   admissible_run bodies (e # es) s"
  by simp

text \<open>
  Where nothing is scheduled twice the counters stay in range. Let every event of an
  execution from freshly constructed promises be admissible: whatever is submitted
  or awaited was never scheduled before, and submissions come from a thread without
  a current job. Then between any two events the children counter of every job
  \<open>J\<close> is 0 or 1; and as long as an unfinished coroutine has \<open>J\<close> as its
  coroutine parent (it will call \<open>child_finished(J)\<close> when it finishes), that
  coroutine is the only one, \<open>J\<close> has not finished and its counter is 1: a counter
  at 0 has no notification outstanding.
\<close>

lemma children_nonneg_protocol:
  assumes "admissible_run bodies es (JobSystem n hw (\<lambda>a. Coro_promise T0 a (bodies a)))"
    and "run es (JobSystem n hw (\<lambda>a. Coro_promise T0 a (bodies a))) = Some s"
  shows "0 \<le> sint (m_children (jobs s J)) \<and>
         (m_children (jobs s J) = 0 \<or> m_children (jobs s J) = 1) \<and>
         (\<forall>c. m_coro (jobs s c) \<noteq> Done \<and> m_coro_parent (jobs s c) = Some J \<longrightarrow>
              m_children (jobs s J) = 1 \<and> m_coro (jobs s J) \<noteq> Done \<and>
              (\<forall>c'. m_coro (jobs s c') \<noteq> Done \<and> m_coro_parent (jobs s c') = Some J \<longrightarrow> c' = c))"
proof -
  from protocol_run[OF protocol_init assms]
  obtain qs where co: "counts_ok bodies (jobs s) qs" and po: "parents_ok bodies (jobs s) qs"
    unfolding protocol_inv_def by blast
  have c01: "m_children (jobs s J) = 0 \<or> m_children (jobs s J) = 1"
  proof (cases "m_coro (jobs s J)")
    case (Suspended b)
    from counts_okD(5,6)[OF co Suspended] show ?thesis by blast
  next
    case Done
    from counts_okD(3)[OF co Done] show ?thesis by simp
  next
    case Destroyed
    with counts_okD(1)[OF co, of J] show ?thesis by simp
  qed
  then have nn: "0 \<le> sint (m_children (jobs s J))" by auto
  have pend: "m_children (jobs s J) = 1 \<and> m_coro (jobs s J) \<noteq> Done \<and>
      (\<forall>c'. m_coro (jobs s c') \<noteq> Done \<and> m_coro_parent (jobs s c') = Some J \<longrightarrow> c' = c)"
    if "m_coro (jobs s c) \<noteq> Done \<and> m_coro_parent (jobs s c) = Some J" for c
  proof -
    from that have nd: "m_coro (jobs s c) \<noteq> Done" and par: "m_coro_parent (jobs s c) = Some J"
      by simp_all
    from parents_okD(1)[OF po nd par] have w: "waiting bodies (jobs s) qs J" .
    from waitingD[OF w] obtain b where nq: "J \<notin> set qs" and fJ: "m_coro (jobs s J) = Suspended b"
      by blast
    from counts_okD(6)[OF co fJ nq] fJ parents_okD(2)[OF po nd par] show ?thesis by auto
  qed
  from c01 nn pend show ?thesis by blast
qed

lemma children_nonneg_protocol_run:
  "admissible_run shared_child [Submit 0, Round, Round, Round] shared_child_system \<and>
   run [Submit 0, Round, Round, Round] shared_child_system \<noteq> None \<and>
   m_coro (jobs (the (run [Submit 0, Round, Round, Round] shared_child_system)) 0) = Done \<and>
   m_children (jobs (the (run [Submit 0, Round, Round, Round] shared_child_system)) 0) = 0 \<and>
   0 \<le> sint (m_children (jobs (the (run [Submit 0, Round, Round, Round] shared_child_system)) 1))"
proof -
  define s1 where "s1 = the (exec (Submit 0) shared_child_system)"
  define s2 where "s2 = the (exec Round s1)"
  define s3 where "s3 = the (exec Round s2)"
  define s4 where "s4 = the (exec Round s3)"
  have "exec (Submit 0) shared_child_system \<noteq> None" by code_simp
  then have e1: "exec (Submit 0) shared_child_system = Some s1" by (simp add: s1_def)
  have "exec Round s1 \<noteq> None" unfolding s1_def by code_simp
  then have e2: "exec Round s1 = Some s2" by (simp add: s2_def)
  have "exec Round s2 \<noteq> None" unfolding s2_def s1_def by code_simp
  then have e3: "exec Round s2 = Some s3" by (simp add: s3_def)
  have "exec Round s3 \<noteq> None" unfolding s3_def s2_def s1_def by code_simp
  then have e4: "exec Round s3 = Some s4" by (simp add: s4_def)
  have a1: "admissible shared_child shared_child_system (Submit 0)"
  proof (rule admissible_SubmitI[where qs = "[]"])
    show "m_current_job shared_child_system = None" by code_simp
    show "m_coro (jobs shared_child_system 0) = Suspended (shared_child 0)" by code_simp
    show "queue_list (jobs shared_child_system) (m_central_queue shared_child_system) []"
      by code_simp
    show "0 \<notin> set []" by simp
  qed
  have a2: "admissible shared_child s1 Round"
  proof (rule admissible_Round_awaitI[where j = 0 and c = 1 and qs = "[0]"
        and b = "Co_await_coro 1 (Co_return 10)"])
    show "m_central_queue s1 = Some 0" unfolding s1_def by code_simp
    show "m_coro (jobs s1 0) = Suspended (Co_await_coro 1 (Co_return 10))"
      unfolding s1_def by code_simp
    show "awaited (thread_index s1) (Co_await_coro 1 (Co_return 10)) = Some 1" by simp
    show "m_coro (jobs s1 1) = Suspended (shared_child 1)" unfolding s1_def by code_simp
    show "queue_list (jobs s1) (m_central_queue s1) [0]" unfolding s1_def by code_simp
    show "1 \<notin> set [0::addr]" by simp
  qed
  have a3: "admissible shared_child s2 Round"
  proof (rule admissible_Round_otherI[where j = 1 and b = "Co_return 20"])
    show "m_central_queue s2 = Some 1" unfolding s2_def s1_def by code_simp
    show "m_coro (jobs s2 1) = Suspended (Co_return 20)" unfolding s2_def s1_def by code_simp
    show "awaited (thread_index s2) (Co_return 20) = None" by simp
  qed
  have a4: "admissible shared_child s3 Round"
  proof (rule admissible_Round_otherI[where j = 0 and b = "Co_return 10"])
    show "m_central_queue s3 = Some 0" unfolding s3_def s2_def s1_def by code_simp
    show "m_coro (jobs s3 0) = Suspended (Co_return 10)" unfolding s3_def s2_def s1_def
      by code_simp
    show "awaited (thread_index s3) (Co_return 10) = None" by simp
  qed
  have adm: "admissible_run shared_child [Submit 0, Round, Round, Round] shared_child_system"
    by (intro admissible_run_ConsI[OF a1 e1] admissible_run_ConsI[OF a2 e2]
        admissible_run_ConsI[OF a3 e3] admissible_run_ConsI[OF a4 e4]) simp
  have r: "run [Submit 0, Round, Round, Round] shared_child_system = Some s4"
    by (simp only: run.simps e1 e2 e3 e4 option.case)
  have d: "m_coro (jobs s4 0) = Done" and z: "m_children (jobs s4 0) = 0"
    unfolding s4_def s3_def s2_def s1_def by code_simp+
  note t = children_nonneg_protocol[OF adm[unfolded shared_child_system_def]
      r[unfolded shared_child_system_def], of 1]
  then have "0 \<le> sint (m_children (jobs s4 1))" by blast
  with adm r d z show ?thesis by simp
qed

section \<open>Changing the thread\<close>





end
